theory Spec2Isabelle
  imports Main "HOL-Library.Sublist" "HOL-Library.AList"
begin

section \<open>Python values used by the workflow analysis\<close>

text \<open>
  The development embeds \<^verbatim>\<open>workflow_analysis.py\<close>. A Python \<^verbatim>\<open>str\<close> is a
  \<^typ>\<open>string\<close> whose characters are read as code points below 256; the built-in
  string operations are modelled on that range. An exception that leaves a function is the
  left summand of its result. Two limits of the interpreter are not modelled: the recursion
  limit, and the limit on the number of digits that \<^verbatim>\<open>int()\<close> and \<^verbatim>\<open>str()\<close> convert.
\<close>

datatype error = ValueError | IndexError | KeyError

definition code_point :: "char \<Rightarrow> nat" where
  "code_point c = of_char c"

text \<open>\<^verbatim>\<open>str.isspace\<close> on one character, as used by \<^verbatim>\<open>str.strip()\<close>.\<close>

definition is_space :: "char \<Rightarrow> bool" where
  "is_space c =
     (let n = code_point c
      in (9 \<le> n \<and> n \<le> 13) \<or> (28 \<le> n \<and> n \<le> 32) \<or> n = 133 \<or> n = 160)"

definition py_strip :: "string \<Rightarrow> string" where
  "py_strip s = rev (dropWhile is_space (rev (dropWhile is_space s)))"

definition lower_char :: "char \<Rightarrow> char" where
  "lower_char c =
     (let n = code_point c
      in if (65 \<le> n \<and> n \<le> 90) \<or> (192 \<le> n \<and> n \<le> 222 \<and> n \<noteq> 215)
         then char_of (n + 32) else c)"

definition py_lower :: "string \<Rightarrow> string" where
  "py_lower s = map lower_char s"

text \<open>\<^verbatim>\<open>sub in s\<close> for two strings.\<close>

fun py_in :: "string \<Rightarrow> string \<Rightarrow> bool" where
  "py_in sub [] = (sub = [])"
| "py_in sub (c # cs) = (prefix sub (c # cs) \<or> py_in sub cs)"

text \<open>\<^verbatim>\<open>sep.join(parts)\<close>.\<close>

fun py_join :: "string \<Rightarrow> string list \<Rightarrow> string" where
  "py_join sep [] = []"
| "py_join sep [p] = p"
| "py_join sep (p # q # ps) = p @ sep @ py_join sep (q # ps)"

subsection \<open>Integers and their decimal text\<close>

definition digit_char :: "nat \<Rightarrow> char" where
  "digit_char d = char_of (48 + d)"

function str_nat :: "nat \<Rightarrow> string" where
  "str_nat n = (if n < 10 then [digit_char n] else str_nat (n div 10) @ [digit_char (n mod 10)])"
  by pat_completeness auto
termination
  by (relation "measure id") auto

declare str_nat.simps [simp del]

text \<open>\<^verbatim>\<open>str(i)\<close> for an \<^verbatim>\<open>int\<close>.\<close>

definition str_int :: "int \<Rightarrow> string" where
  "str_int i = (if i < 0 then CHR ''-'' # str_nat (nat (- i)) else str_nat (nat i))"

definition is_digit :: "char \<Rightarrow> bool" where
  "is_digit c = (48 \<le> code_point c \<and> code_point c \<le> 57)"

text \<open>
  The digits of an integer literal accepted by \<^verbatim>\<open>int(s)\<close>: at least one digit, single
  underscores allowed between digits. The flag says that the previous character was a digit.
\<close>

fun parse_digits :: "bool \<Rightarrow> nat \<Rightarrow> string \<Rightarrow> nat option" where
  "parse_digits prev acc [] = (if prev then Some acc else None)"
| "parse_digits prev acc (c # cs) =
     (if is_digit c then parse_digits True (acc * 10 + (code_point c - 48)) cs
      else if c = CHR ''_'' \<and> prev then parse_digits False acc cs
      else None)"

text \<open>
  The whitespace that \<^verbatim>\<open>int(s)\<close> skips around the number. It is narrower than
  \<^verbatim>\<open>str.isspace\<close>: a character below 127 is skipped only if it is a blank of the C locale
  (9 to 13, and 32), so the separators 28 to 31 make \<^verbatim>\<open>int()\<close> raise, while the two other
  spaces of the range, 133 and 160, are replaced by a blank first and then skipped.
\<close>

definition is_int_space :: "char \<Rightarrow> bool" where
  "is_int_space c =
     (let n = code_point c
      in (9 \<le> n \<and> n \<le> 13) \<or> n = 32 \<or> n = 133 \<or> n = 160)"

definition int_strip :: "string \<Rightarrow> string" where
  "int_strip s = rev (dropWhile is_int_space (rev (dropWhile is_int_space s)))"

text \<open>
  \<^verbatim>\<open>int(s)\<close> for a string: surrounding whitespace is dropped, one sign is allowed, and
  anything else raises \<^verbatim>\<open>ValueError\<close>.
\<close>

definition py_int :: "string \<Rightarrow> error + int" where
  "py_int s =
     (case int_strip s of
        [] \<Rightarrow> Inl ValueError
      | c # cs \<Rightarrow>
          (if c = CHR ''-'' then
             (case parse_digits False 0 cs of None \<Rightarrow> Inl ValueError | Some n \<Rightarrow> Inr (- int n))
           else if c = CHR ''+'' then
             (case parse_digits False 0 cs of None \<Rightarrow> Inl ValueError | Some n \<Rightarrow> Inr (int n))
           else
             (case parse_digits False 0 (c # cs) of None \<Rightarrow> Inl ValueError | Some n \<Rightarrow> Inr (int n))))"

subsection \<open>JSON values\<close>

text \<open>
  The values found in \<^verbatim>\<open>widgets_values\<close>, in identifiers and in findings. A float is kept
  as the text that \<^verbatim>\<open>str()\<close> gives for it, since floating point itself is outside this
  embedding; JSON objects do not occur as such values here.
\<close>

datatype jval =
    JNone
  | JBool bool
  | JInt int
  | JFloat string
  | JStr string
  | JList "jval list"

definition hex_digit :: "nat \<Rightarrow> char" where
  "hex_digit d = (if d < 10 then char_of (48 + d) else char_of (87 + d))"

text \<open>\<^verbatim>\<open>repr(s)\<close> for a string: the quote is chosen as Python does, then each character is escaped.\<close>

definition repr_char :: "char \<Rightarrow> char \<Rightarrow> string" where
  "repr_char quote c =
     (let n = code_point c
      in if c = quote \<or> c = CHR 0x5C then [CHR 0x5C, c]
         else if n = 9 then [CHR 0x5C, CHR ''t'']
         else if n = 10 then [CHR 0x5C, CHR ''n'']
         else if n = 13 then [CHR 0x5C, CHR ''r'']
         else if n < 32 \<or> (127 \<le> n \<and> n \<le> 160) \<or> n = 173
           then [CHR 0x5C, CHR ''x'', hex_digit (n div 16), hex_digit (n mod 16)]
         else [c])"

definition repr_str :: "string \<Rightarrow> string" where
  "repr_str s =
     (let quote = (if CHR 0x27 \<in> set s \<and> CHR 0x22 \<notin> set s then CHR 0x22 else CHR 0x27)
      in quote # concat (map (repr_char quote) s) @ [quote])"

fun py_repr :: "jval \<Rightarrow> string" where
  "py_repr JNone = ''None''"
| "py_repr (JBool b) = (if b then ''True'' else ''False'')"
| "py_repr (JInt i) = str_int i"
| "py_repr (JFloat r) = r"
| "py_repr (JStr s) = repr_str s"
| "py_repr (JList xs) = ''['' @ py_join '', '' (map py_repr xs) @ '']''"

text \<open>\<^verbatim>\<open>str(v)\<close>.\<close>

definition py_str :: "jval \<Rightarrow> string" where
  "py_str v = (case v of JStr s \<Rightarrow> s | _ \<Rightarrow> py_repr v)"

section \<open>Data model\<close>

text \<open>
  An input-slot descriptor and a node record are Python dicts whose keys may be absent:
  every field read with \<^verbatim>\<open>.get\<close> or tested with \<^verbatim>\<open>in\<close> is an option. An empty dict
  is false in Python, so the record also says whether it carries keys other than the ones
  the analysis reads.
\<close>

record input_slot =
  slot_name :: "string option"
  slot_type :: "string option"

record node =
  nid :: "jval option"
  ntype :: "string option"
  title :: "string option"
  mode :: "int option"
  inputs :: "input_slot list option"
  widgets_values :: "jval list option"
  other_keys :: bool

text \<open>The truth value of a node dict (\<^verbatim>\<open>if not node_data\<close>).\<close>

definition node_truthy :: "node \<Rightarrow> bool" where
  "node_truthy n =
     (nid n \<noteq> None \<or> ntype n \<noteq> None \<or> title n \<noteq> None \<or> mode n \<noteq> None
      \<or> inputs n \<noteq> None \<or> widgets_values n \<noteq> None \<or> other_keys n)"

text \<open>
  A link is the list \<^verbatim>\<open>[link_num, output_node_id, output_idx, input_node_id, input_idx, type]\<close>;
  the fields below are its positions 0 to 5.
\<close>

record link =
  link_num :: int
  from_node :: int
  from_idx :: int
  to_node :: int
  to_idx :: int
  link_type :: string

text \<open>A finding is the dict appended to a category; \<^verbatim>\<open>type\<close>, \<^verbatim>\<open>value\<close> and
  \<^verbatim>\<open>description\<close> are not present in every finding.\<close>

record finding =
  f_node_id :: string
  f_node_type :: string
  f_title :: string
  f_type :: "string option"
  f_value :: "jval option"
  f_description :: "string option"

text \<open>Python dicts keep insertion order: the node mapping and the category map are
  association lists, written with \<^const>\<open>AList.update\<close> and read with \<^const>\<open>map_of\<close>.\<close>

type_synonym nodes = "(string \<times> node) list"
type_synonym category_map = "(string \<times> finding list) list"

datatype nodes_raw =
    NodesDict "(jval \<times> node) list"
  | NodesList "node list"
  | NodesOther

record workflow =
  wf_nodes :: "nodes_raw option"
  wf_links :: "link list option"

datatype workflow_input = NotADict | WorkflowDict workflow

text \<open>\<^verbatim>\<open>nodes.get(k)\<close> followed by the truth test on the result.\<close>

definition get_node :: "nodes \<Rightarrow> string \<Rightarrow> node option" where
  "get_node ns k = (case map_of ns k of None \<Rightarrow> None | Some n \<Rightarrow> if node_truthy n then Some n else None)"

text \<open>\<^verbatim>\<open>node_data.get('mode', 0)\<close>.\<close>

definition get_mode :: "node \<Rightarrow> int" where
  "get_mode n = (case mode n of None \<Rightarrow> 0 | Some m \<Rightarrow> m)"

text \<open>\<^verbatim>\<open>'widgets_values' in node_data and node_data['widgets_values']\<close>.\<close>

definition has_widgets :: "node \<Rightarrow> bool" where
  "has_widgets n = (case widgets_values n of None \<Rightarrow> False | Some ws \<Rightarrow> ws \<noteq> [])"

section \<open>Sink Locator\<close>

definition image_save_keywords :: "string list" where
  "image_save_keywords = [''save'', ''output'', ''export'']"

fun find_image_save_node :: "nodes \<Rightarrow> (string \<times> node) option" where
  "find_image_save_node [] = None"
| "find_image_save_node ((node_id, node_data) # rest) =
     (let node_type = py_lower (case ntype node_data of None \<Rightarrow> [] | Some t \<Rightarrow> t)
      in if list_ex (\<lambda>keyword. py_in keyword node_type) image_save_keywords then
           (case inputs node_data of
              Some ins \<Rightarrow>
                (if list_ex (\<lambda>input_def.
                       py_lower (case slot_type input_def of None \<Rightarrow> [] | Some t \<Rightarrow> t) = ''image'') ins
                 then Some (node_id, node_data)
                 else find_image_save_node rest)
            | None \<Rightarrow>
                (if ntype node_data = Some ''Save Image'' then Some (node_id, node_data)
                 else find_image_save_node rest))
         else find_image_save_node rest)"

section \<open>Edge Index\<close>

text \<open>
  \<^verbatim>\<open>int(target_node_id)\<close> is evaluated once per link inside the loop, so it raises only
  when there is a link to compare with.
\<close>

fun get_node_inputs_from_links :: "string \<Rightarrow> link list \<Rightarrow> error + link list" where
  "get_node_inputs_from_links target_node_id [] = Inr []"
| "get_node_inputs_from_links target_node_id (l # all_links) =
     (case py_int target_node_id of
        Inl e \<Rightarrow> Inl e
      | Inr t \<Rightarrow>
          (case get_node_inputs_from_links target_node_id all_links of
             Inl e \<Rightarrow> Inl e
           | Inr incoming \<Rightarrow> Inr (if to_node l = t then l # incoming else incoming)))"

section \<open>Text Resolver\<close>

text \<open>
  \<^verbatim>\<open>_trace_prompt_source\<close> is the closure inside \<^verbatim>\<open>_handle_conditioning_link\<close>; its
  set \<^verbatim>\<open>prompt_visited\<close> is passed in and returned. Both branches of the source (concat
  node and standard node) begin with \<^verbatim>\<open>get_node_inputs_from_links\<close> and the same loop over
  the incoming links, and differ in what they add from \<^verbatim>\<open>widgets_values\<close> afterwards; the
  model runs the loop once and then tests the type. \<^verbatim>\<open>trace_prompt_links\<close> is that loop,
  with the list \<^verbatim>\<open>current_node_prompt_parts\<close> and the flag \<^verbatim>\<open>found_upstream_text\<close>
  (which the concat branch does not read) as accumulators.
\<close>

definition text_link_types :: "string list" where
  "text_link_types = [''STRING'', ''TEXT'', ''CONDITIONING'']"

text \<open>\<^verbatim>\<open>isinstance(v, (str, int, float))\<close>; a Python \<^verbatim>\<open>bool\<close> is an \<^verbatim>\<open>int\<close>.\<close>

definition is_scalar :: "jval \<Rightarrow> bool" where
  "is_scalar v =
     (case v of JStr _ \<Rightarrow> True | JInt _ \<Rightarrow> True | JBool _ \<Rightarrow> True | JFloat _ \<Rightarrow> True
      | _ \<Rightarrow> False)"

text \<open>What a concat node adds from its own \<^verbatim>\<open>widgets_values\<close>.\<close>

definition concat_widget_parts :: "node \<Rightarrow> string list" where
  "concat_widget_parts n =
     (case widgets_values n of None \<Rightarrow> [] | Some ws \<Rightarrow> map py_str (filter is_scalar ws))"

text \<open>What a standard node falls back to: its first widget value, as a string.\<close>

definition fallback_widget_parts :: "node \<Rightarrow> string list" where
  "fallback_widget_parts n =
     (case widgets_values n of None \<Rightarrow> [] | Some [] \<Rightarrow> [] | Some (w # ws) \<Rightarrow> [py_str w])"

function trace_prompt_source :: "nodes \<Rightarrow> link list \<Rightarrow> string \<Rightarrow> string set \<Rightarrow> error + (string list \<times> string set)"
  and trace_prompt_links :: "nodes \<Rightarrow> link list \<Rightarrow> link list \<Rightarrow> string list \<Rightarrow> bool \<Rightarrow> string set
        \<Rightarrow> error + (string list \<times> bool \<times> string set)"
where
  "trace_prompt_source ns all_links node_id_to_trace prompt_visited =
     (if node_id_to_trace \<in> prompt_visited then Inr ([], prompt_visited)
      else
        (case get_node ns node_id_to_trace of
           None \<Rightarrow> Inr ([], insert node_id_to_trace prompt_visited)
         | Some source_node_data \<Rightarrow>
             (if get_mode source_node_data \<noteq> 0 then Inr ([], insert node_id_to_trace prompt_visited)
              else
                (case get_node_inputs_from_links node_id_to_trace all_links of
                   Inl e \<Rightarrow> Inl e
                 | Inr source_incoming_links \<Rightarrow>
                     (case trace_prompt_links ns all_links source_incoming_links [] False
                             (insert node_id_to_trace prompt_visited) of
                        Inl e \<Rightarrow> Inl e
                      | Inr (parts, found_upstream_text, pv) \<Rightarrow>
                          (if py_in ''concat''
                                (py_lower (case ntype source_node_data of None \<Rightarrow> ''Unknown Source'' | Some t \<Rightarrow> t))
                           then Inr (parts @ concat_widget_parts source_node_data, pv)
                           else if \<not> found_upstream_text
                           then Inr (parts @ fallback_widget_parts source_node_data, pv)
                           else Inr (parts, pv)))))))"
| "trace_prompt_links ns all_links [] parts found pv = Inr (parts, found, pv)"
| "trace_prompt_links ns all_links (incoming_link # rest) parts found pv =
     (if link_type incoming_link \<in> set text_link_types then
        (case trace_prompt_source ns all_links (str_int (from_node incoming_link)) pv of
           Inl e \<Rightarrow> Inl e
         | Inr (traced_parts, pv') \<Rightarrow>
             (if traced_parts \<noteq> [] then trace_prompt_links ns all_links rest (parts @ traced_parts) True pv'
              else trace_prompt_links ns all_links rest parts found pv'))
      else trace_prompt_links ns all_links rest parts found pv)"
  by pat_completeness auto

text \<open>
  Termination: every identifier that the recursion reaches is the source of a link, each is
  entered at most once, and the visited set only grows.
\<close>

lemma get_node_inputs_from_links_subset:
  "get_node_inputs_from_links t ls = Inr r \<Longrightarrow> set r \<subseteq> set ls"
  by (induction ls arbitrary: r) (auto split: sum.splits if_splits)

text \<open>The identifiers \<^verbatim>\<open>str(link[1])\<close> of a list of links.\<close>

definition link_sources :: "link list \<Rightarrow> string set" where
  "link_sources ls = (\<lambda>l. str_int (from_node l)) ` set ls"

lemma finite_link_sources: "finite (link_sources ls)"
  by (simp add: link_sources_def)

lemma link_sources_mono: "set r \<subseteq> set ls \<Longrightarrow> link_sources r \<subseteq> link_sources ls"
  by (auto simp: link_sources_def)

lemma trace_prompt_visited_mono_dom:
  "trace_prompt_source_trace_prompt_links_dom (Inl (ns, all_links, i, pv)) \<Longrightarrow>
     trace_prompt_source ns all_links i pv = Inr (ps, pv') \<Longrightarrow> pv \<subseteq> pv'"
  "trace_prompt_source_trace_prompt_links_dom (Inr (ns, all_links, ls, parts, found, pv)) \<Longrightarrow>
     trace_prompt_links ns all_links ls parts found pv = Inr (ps', found', pv') \<Longrightarrow> pv \<subseteq> pv'"
proof (induction ns all_links i pv and ns all_links ls parts found pv arbitrary: ps pv' and ps' found' pv'
    rule: trace_prompt_source_trace_prompt_links.pinduct)
  case (1 ns all_links i pv)
  note eq = "1.prems"[unfolded trace_prompt_source.psimps[OF "1.hyps"]]
  show ?case
  proof (cases "i \<in> pv")
    case True
    with eq show ?thesis by simp
  next
    case notin: False
    show ?thesis
    proof (cases "get_node ns i")
      case None
      with eq notin show ?thesis by auto
    next
      case (Some n)
      show ?thesis
      proof (cases "get_mode n \<noteq> 0")
        case True
        with eq notin Some show ?thesis by auto
      next
        case enabled: False
        show ?thesis
        proof (cases "get_node_inputs_from_links i all_links")
          case (Inl e)
          with eq notin Some enabled show ?thesis by simp
        next
          case (Inr b)
          show ?thesis
          proof (cases "trace_prompt_links ns all_links b [] False (insert i pv)")
            case (Inl e)
            with eq notin Some enabled Inr show ?thesis by simp
          next
            case res: (Inr r)
            obtain parts fnd pv2 where r: "r = (parts, fnd, pv2)" by (cases r) auto
            have "insert i pv \<subseteq> pv2"
              using "1.IH"[OF notin Some enabled Inr] res r by simp
            moreover have "pv' = pv2"
              using eq notin Some enabled Inr res r by (simp split: if_splits)
            ultimately show ?thesis by auto
          qed
        qed
      qed
    qed
  qed
next
  case (2 ns all_links parts found pv)
  then show ?case by (simp add: trace_prompt_links.psimps)
next
  case (3 ns all_links l rest parts found pv)
  note eq = "3.prems"[unfolded trace_prompt_links.psimps(2)[OF "3.hyps"]]
  show ?case
  proof (cases "link_type l \<in> set text_link_types")
    case False
    with eq "3.IH"(4) show ?thesis by simp
  next
    case True
    show ?thesis
    proof (cases "trace_prompt_source ns all_links (str_int (from_node l)) pv")
      case (Inl e)
      with eq True show ?thesis by simp
    next
      case (Inr b)
      obtain x y where b: "b = (x, y)" by (cases b) auto
      have sub: "pv \<subseteq> y" using "3.IH"(1)[OF True] Inr b by simp
      show ?thesis
      proof (cases "x \<noteq> []")
        case True
        have "trace_prompt_links ns all_links rest (parts @ x) True y = Inr (ps', found', pv')"
          using eq \<open>link_type l \<in> set text_link_types\<close> Inr b True by simp
        then have "y \<subseteq> pv'"
          using "3.IH"(2)[OF \<open>link_type l \<in> set text_link_types\<close> Inr b[symmetric] True] by simp
        with sub show ?thesis by auto
      next
        case False
        have "trace_prompt_links ns all_links rest parts found y = Inr (ps', found', pv')"
          using eq \<open>link_type l \<in> set text_link_types\<close> Inr b False by simp
        then have "y \<subseteq> pv'"
          using "3.IH"(3)[OF \<open>link_type l \<in> set text_link_types\<close> Inr b[symmetric] False] by simp
        with sub show ?thesis by auto
      qed
    qed
  qed
qed

lemma card_diff_le:
  "finite A \<Longrightarrow> A' \<subseteq> A \<Longrightarrow> pv \<subseteq> pv' \<Longrightarrow>
     card (A' - pv') < card (A - pv) \<or> card (A' - pv') = card (A - pv)"
proof -
  assume "finite A" "A' \<subseteq> A" "pv \<subseteq> pv'"
  then have "card (A' - pv') \<le> card (A - pv)"
    by (intro card_mono) auto
  then show ?thesis by auto
qed

lemma card_diff_less:
  assumes "i \<notin> pv" "set r \<subseteq> set ls"
  shows "card (link_sources ls \<union> link_sources r - insert i pv) < card (insert i (link_sources ls) - pv)"
proof -
  have "link_sources r \<subseteq> link_sources ls" using assms(2) by (rule link_sources_mono)
  then have "link_sources ls \<union> link_sources r - insert i pv \<subset> insert i (link_sources ls) - pv"
    using assms(1) by auto
  then show ?thesis
    by (intro psubset_card_mono) (simp_all add: finite_link_sources)
qed

lemma link_sources_Cons: "link_sources (l # ls) = insert (str_int (from_node l)) (link_sources ls)"
  by (simp add: link_sources_def)

lemma lex_step:
  "finite A \<Longrightarrow> A' \<subseteq> A \<Longrightarrow> pv \<subseteq> pv' \<Longrightarrow> (m::nat) < n \<Longrightarrow>
     card (A' - pv') < card (A - pv) \<or> card (A' - pv') = card (A - pv) \<and> m < n"
  using card_diff_le[of A A' pv pv'] by auto

lemma trace_prompt_source_terminates: "All trace_prompt_source_trace_prompt_links_dom"
  apply (relation "inv_image (less_than <*lex*> less_than)
     (\<lambda>x. case x of
        Inl (ns, all_links, i, pv) \<Rightarrow>
          (card (insert i (link_sources all_links) - pv), 0::nat)
      | Inr (ns, all_links, ls, parts, found, pv) \<Rightarrow>
          (card ((link_sources all_links \<union> link_sources ls) - pv), Suc (length ls)))")
  subgoal by (intro wf_inv_image wf_lex_prod wf_less_than)
  subgoal for ns all_links i pv n incoming
    apply (simp only: in_inv_image sum.case prod.case in_lex_prod less_than_iff)
    apply (rule disjI1)
    apply (rule card_diff_less)
     apply assumption
    apply (erule get_node_inputs_from_links_subset)
    done
  subgoal for ns all_links l rest parts found pv
    apply (simp only: in_inv_image sum.case prod.case in_lex_prod less_than_iff)
    apply (rule lex_step)
     apply (rule finite_UnI; rule finite_link_sources)
     apply (simp add: link_sources_Cons)
      apply blast
     apply simp
    apply simp
    done
  subgoal for ns all_links l rest parts found pv b x y
    apply (simp only: in_inv_image sum.case prod.case in_lex_prod less_than_iff)
    apply (rule lex_step)
     apply (rule finite_UnI; rule finite_link_sources)
     apply (simp add: link_sources_Cons)
      apply blast
     apply (rule trace_prompt_visited_mono_dom(1)[of ns all_links "str_int (from_node l)" pv x y])
      apply assumption
     apply simp
    apply simp
    done
  subgoal for ns all_links l rest parts found pv b x y
    apply (simp only: in_inv_image sum.case prod.case in_lex_prod less_than_iff)
    apply (rule lex_step)
     apply (rule finite_UnI; rule finite_link_sources)
     apply (simp add: link_sources_Cons)
      apply blast
     apply (rule trace_prompt_visited_mono_dom(1)[of ns all_links "str_int (from_node l)" pv x y])
      apply assumption
     apply simp
    apply simp
    done
  subgoal for ns all_links l rest parts found pv
    apply (simp only: in_inv_image sum.case prod.case in_lex_prod less_than_iff)
    apply (rule lex_step)
     apply (rule finite_UnI; rule finite_link_sources)
     apply (simp add: link_sources_Cons)
      apply blast
     apply simp
    apply simp
    done
  done

termination trace_prompt_source
  by (rule trace_prompt_source_terminates)

declare trace_prompt_source.simps [simp del]

section \<open>Category map\<close>

text \<open>\<^verbatim>\<open>if category not in identified_inputs: identified_inputs[category] = []\<close>.\<close>

definition ensure_category :: "string \<Rightarrow> category_map \<Rightarrow> category_map" where
  "ensure_category category m = (if map_of m category = None then m @ [(category, [])] else m)"

text \<open>\<^verbatim>\<open>identified_inputs[category]\<close> once the key is there.\<close>

definition category_items :: "string \<Rightarrow> category_map \<Rightarrow> finding list" where
  "category_items category m = (case map_of m category of None \<Rightarrow> [] | Some items \<Rightarrow> items)"

text \<open>\<^verbatim>\<open>identified_inputs[category].append(item)\<close>.\<close>

definition append_item :: "string \<Rightarrow> finding \<Rightarrow> category_map \<Rightarrow> category_map" where
  "append_item category item m = AList.update category (category_items category m @ [item]) m"

section \<open>Conditioning links\<close>

text \<open>
  The name of the input slot of the current node that the link enters, lower-cased, or
  \<^verbatim>\<open>None\<close>. The source guards the index with \<^verbatim>\<open>input_index < len(inputs)\<close> only, so a
  negative index counts from the end and raises \<^verbatim>\<open>IndexError\<close> below \<^verbatim>\<open>-len(inputs)\<close>.
\<close>

definition input_name_on_current_node :: "nodes \<Rightarrow> string \<Rightarrow> int \<Rightarrow> error + string option" where
  "input_name_on_current_node ns current_node_id input_index =
     (case get_node ns current_node_id of
        None \<Rightarrow> Inr None
      | Some node_data \<Rightarrow>
          (case inputs node_data of
             None \<Rightarrow> Inr None
           | Some ins \<Rightarrow>
               (if input_index < int (length ins) then
                  (if input_index < - int (length ins) then Inl IndexError
                   else Inr (Some (py_lower
                     (case slot_name (ins ! nat (if input_index < 0 then input_index + int (length ins)
                                                  else input_index)) of
                        None \<Rightarrow> [] | Some s \<Rightarrow> s))))
                else Inr None)))"

definition prompt_category :: "string option \<Rightarrow> string option" where
  "prompt_category input_name =
     (case input_name of
        None \<Rightarrow> None
      | Some n \<Rightarrow>
          (if n \<noteq> [] \<and> py_in ''positive'' n then Some ''Positive Prompts''
           else if n \<noteq> [] \<and> py_in ''negative'' n then Some ''Negative Prompts''
           else None))"

text \<open>\<^verbatim>\<open>any(item['value'] == final_prompt for item in items)\<close>; an item without the key
  \<^verbatim>\<open>value\<close> raises \<^verbatim>\<open>KeyError\<close> when it is reached.\<close>

fun any_value_eq :: "string \<Rightarrow> finding list \<Rightarrow> error + bool" where
  "any_value_eq final_prompt [] = Inr False"
| "any_value_eq final_prompt (item # items) =
     (case f_value item of
        None \<Rightarrow> Inl KeyError
      | Some v \<Rightarrow> if v = JStr final_prompt then Inr True else any_value_eq final_prompt items)"

definition prompt_finding :: "nodes \<Rightarrow> string \<Rightarrow> string \<Rightarrow> finding" where
  "prompt_finding ns output_node_id final_prompt =
     \<lparr>f_node_id = output_node_id,
      f_node_type = (case map_of ns output_node_id of
                       None \<Rightarrow> ''Unknown Type''
                     | Some n \<Rightarrow> (case ntype n of None \<Rightarrow> ''Unknown Type'' | Some t \<Rightarrow> t)),
      f_title = (case map_of ns output_node_id of
                   None \<Rightarrow> ''Node '' @ output_node_id
                 | Some n \<Rightarrow> (case title n of None \<Rightarrow> ''Node '' @ output_node_id | Some t \<Rightarrow> t)),
      f_type = Some ''TEXT'',
      f_value = Some (JStr final_prompt),
      f_description = None\<rparr>"

text \<open>
  \<^verbatim>\<open>_handle_conditioning_link\<close>. It changes \<^verbatim>\<open>identified_inputs\<close> only; the parameter
  \<^verbatim>\<open>_traverse\<close> of the source is never called (the function ends in \<^verbatim>\<open>pass\<close>).
\<close>

definition handle_conditioning_link ::
    "string \<Rightarrow> link \<Rightarrow> nodes \<Rightarrow> category_map \<Rightarrow> link list \<Rightarrow> error + category_map" where
  "handle_conditioning_link current_node_id l ns identified all_links_in_workflow =
     (let output_node_id = str_int (from_node l) in
      case input_name_on_current_node ns current_node_id (to_idx l) of
        Inl e \<Rightarrow> Inl e
      | Inr input_name \<Rightarrow>
          (case prompt_category input_name of
             None \<Rightarrow> Inr identified
           | Some category \<Rightarrow>
               (case trace_prompt_source ns all_links_in_workflow output_node_id {} of
                  Inl e \<Rightarrow> Inl e
                | Inr (all_prompt_parts, prompt_visited) \<Rightarrow>
                    (if all_prompt_parts = [] then Inr identified
                     else
                       (let final_prompt = py_strip (py_join '' '' all_prompt_parts);
                            identified1 = ensure_category category identified
                        in case any_value_eq final_prompt (category_items category identified1) of
                             Inl e \<Rightarrow> Inl e
                           | Inr True \<Rightarrow> Inr identified1
                           | Inr False \<Rightarrow>
                               Inr (append_item category
                                      (prompt_finding ns output_node_id final_prompt) identified1))))))"

section \<open>Provenance Tracer\<close>

definition lora_loader_keywords :: "string list" where
  "lora_loader_keywords = [''lora'', ''loraloader'', ''loadlora'', ''applylora'', ''apply_lora'']"

definition param_link_types :: "string list" where
  "param_link_types = [''VAE'', ''LATENT'', ''CFG'', ''SAMPLER'', ''SCHEDULER'', ''DENOISE'', ''STEPS'']"

definition has_model_input :: "node \<Rightarrow> bool" where
  "has_model_input output_node_data =
     (case inputs output_node_data of
        None \<Rightarrow> False
      | Some ins \<Rightarrow>
          list_ex (\<lambda>input_def.
             py_lower (case slot_name input_def of None \<Rightarrow> [] | Some s \<Rightarrow> s) = ''model''
             \<and> slot_type input_def = Some ''MODEL'') ins)"

definition model_category :: "node \<Rightarrow> string" where
  "model_category output_node_data =
     (let model_type = (case ntype output_node_data of None \<Rightarrow> ''Unknown Model Source'' | Some t \<Rightarrow> t)
      in if list_ex (\<lambda>keyword. py_in keyword (py_lower model_type)) lora_loader_keywords
         then ''LoRA Models''
         else if has_model_input output_node_data then ''LoRA Models''
         else ''Base Models'')"

definition link_finding :: "string \<Rightarrow> string \<Rightarrow> node \<Rightarrow> string \<Rightarrow> finding" where
  "link_finding default_type output_node_id output_node_data lt =
     (let output_type = (case ntype output_node_data of None \<Rightarrow> default_type | Some t \<Rightarrow> t)
      in \<lparr>f_node_id = output_node_id,
          f_node_type = output_type,
          f_title = (case title output_node_data of
                       None \<Rightarrow> ''Node '' @ output_node_id @ '' ('' @ output_type @ '')''
                     | Some t \<Rightarrow> t),
          f_type = Some lt,
          f_value = Some (JList (case widgets_values output_node_data of None \<Rightarrow> [] | Some ws \<Rightarrow> ws)),
          f_description = None\<rparr>)"

text \<open>
  The branch of \<^verbatim>\<open>_traverse\<close> for a \<^verbatim>\<open>MODEL\<close> link. The result pairs the new
  \<^verbatim>\<open>identified_inputs\<close> with the fact that the branch ends in \<^verbatim>\<open>_traverse(output_node_id)\<close>:
  that call stands inside \<^verbatim>\<open>if model_value:\<close> and in the \<^verbatim>\<open>else\<close> of the enabled test.
\<close>

definition handle_model_link :: "nodes \<Rightarrow> link \<Rightarrow> category_map \<Rightarrow> category_map \<times> bool" where
  "handle_model_link ns l identified =
     (let output_node_id = str_int (from_node l) in
      case get_node ns output_node_id of
        None \<Rightarrow> (identified, True)
      | Some output_node_data \<Rightarrow>
          (if get_mode output_node_data = 0 then
             (if has_widgets output_node_data then
                (let category = model_category output_node_data;
                     identified1 = ensure_category category identified
                 in (if \<not> list_ex (\<lambda>item. f_node_id item = output_node_id \<and> f_type item = Some (link_type l))
                            (category_items category identified1)
                     then append_item category
                            (link_finding ''Unknown Model Source'' output_node_id output_node_data (link_type l))
                            identified1
                     else identified1,
                     True))
              else (identified, False))
           else (identified, True)))"

text \<open>The branch for the parameter link types; it always ends in \<^verbatim>\<open>_traverse(output_node_id)\<close>.\<close>

definition handle_param_link :: "nodes \<Rightarrow> link \<Rightarrow> category_map \<Rightarrow> category_map \<times> bool" where
  "handle_param_link ns l identified =
     (let output_node_id = str_int (from_node l) in
      case get_node ns output_node_id of
        None \<Rightarrow> (identified, True)
      | Some output_node_data \<Rightarrow>
          (if get_mode output_node_data = 0 then
             (if has_widgets output_node_data then
                (append_item (link_type l)
                   (link_finding ''Unknown Source'' output_node_id output_node_data (link_type l))
                   (ensure_category (link_type l) identified),
                 True)
              else (identified, True))
           else (identified, True)))"

text \<open>The dispatch on \<^verbatim>\<open>link_type\<close> in the loop of \<^verbatim>\<open>_traverse\<close>.\<close>

definition handle_link ::
    "nodes \<Rightarrow> link list \<Rightarrow> string \<Rightarrow> link \<Rightarrow> category_map \<Rightarrow> error + (category_map \<times> bool)" where
  "handle_link ns links current_node_id l identified =
     (if link_type l = ''CONDITIONING'' then
        (case handle_conditioning_link current_node_id l ns identified links of
           Inl e \<Rightarrow> Inl e
         | Inr identified' \<Rightarrow> Inr (identified', False))
      else if link_type l = ''MODEL'' then Inr (handle_model_link ns l identified)
      else if link_type l \<in> set param_link_types then Inr (handle_param_link ns l identified)
      else Inr (identified, True))"

record tstate =
  identified_inputs :: category_map
  visited :: "string set"

text \<open>The step of \<^verbatim>\<open>_traverse\<close> for a node without incoming links.\<close>

definition source_finding :: "string \<Rightarrow> node \<Rightarrow> finding" where
  "source_finding current_node_id node_data =
     (let nt = (case ntype node_data of None \<Rightarrow> ''Unknown Type'' | Some t \<Rightarrow> t)
      in \<lparr>f_node_id = current_node_id,
          f_node_type = nt,
          f_title = (case title node_data of
                       None \<Rightarrow> ''Node '' @ current_node_id @ '' ('' @ nt @ '')''
                     | Some t \<Rightarrow> t),
          f_type = None,
          f_value = None,
          f_description = Some ''Node with no incoming links and no explicit parameters.''\<rparr>)"

definition record_source_node :: "string \<Rightarrow> node \<Rightarrow> category_map \<Rightarrow> category_map" where
  "record_source_node current_node_id node_data identified =
     (if get_mode node_data = 0 \<and> \<not> has_widgets node_data then
        append_item ''Source Nodes (No Parameters)''
          (source_finding current_node_id node_data)
          (ensure_category ''Source Nodes (No Parameters)'' identified)
      else identified)"

function traverse :: "nodes \<Rightarrow> link list \<Rightarrow> string \<Rightarrow> tstate \<Rightarrow> error + tstate"
  and traverse_links :: "nodes \<Rightarrow> link list \<Rightarrow> string \<Rightarrow> link list \<Rightarrow> tstate \<Rightarrow> error + tstate"
where
  "traverse ns links current_node_id st =
     (if current_node_id \<in> visited st then Inr st
      else
        (case get_node ns current_node_id of
           None \<Rightarrow> Inr (st\<lparr>visited := insert current_node_id (visited st)\<rparr>)
         | Some node_data \<Rightarrow>
             (case get_node_inputs_from_links current_node_id links of
                Inl e \<Rightarrow> Inl e
              | Inr incoming_links \<Rightarrow>
                  (if incoming_links = [] then
                     Inr \<lparr>identified_inputs = record_source_node current_node_id node_data (identified_inputs st),
                          visited = insert current_node_id (visited st)\<rparr>
                   else traverse_links ns links current_node_id incoming_links
                          (st\<lparr>visited := insert current_node_id (visited st)\<rparr>)))))"
| "traverse_links ns links current_node_id [] st = Inr st"
| "traverse_links ns links current_node_id (l # rest) st =
     (case handle_link ns links current_node_id l (identified_inputs st) of
        Inl e \<Rightarrow> Inl e
      | Inr (identified', recurse) \<Rightarrow>
          (if recurse then
             (case traverse ns links (str_int (from_node l)) (st\<lparr>identified_inputs := identified'\<rparr>) of
                Inl e \<Rightarrow> Inl e
              | Inr st' \<Rightarrow> traverse_links ns links current_node_id rest st')
           else traverse_links ns links current_node_id rest (st\<lparr>identified_inputs := identified'\<rparr>)))"
  by pat_completeness auto

lemma traverse_visited_mono_dom:
  "traverse_traverse_links_dom (Inl (ns, links, i, st)) \<Longrightarrow>
     traverse ns links i st = Inr st' \<Longrightarrow> visited st \<subseteq> visited st'"
  "traverse_traverse_links_dom (Inr (ns, links, i, ls, st)) \<Longrightarrow>
     traverse_links ns links i ls st = Inr st' \<Longrightarrow> visited st \<subseteq> visited st'"
proof (induction ns links i st and ns links i ls st arbitrary: st' and st'
    rule: traverse_traverse_links.pinduct)
  case (1 ns links i st)
  note eq = "1.prems"[unfolded traverse.psimps[OF "1.hyps"]]
  show ?case
  proof (cases "i \<in> visited st")
    case True
    with eq show ?thesis by simp
  next
    case notin: False
    show ?thesis
    proof (cases "get_node ns i")
      case None
      with eq notin show ?thesis by auto
    next
      case (Some n)
      show ?thesis
      proof (cases "get_node_inputs_from_links i links")
        case (Inl e)
        with eq notin Some show ?thesis by simp
      next
        case (Inr b)
        show ?thesis
        proof (cases "b = []")
          case True
          with eq notin Some Inr show ?thesis by auto
        next
          case False
          have "traverse_links ns links i b (st\<lparr>visited := insert i (visited st)\<rparr>) = Inr st'"
            using eq notin Some Inr False by simp
          then have "visited (st\<lparr>visited := insert i (visited st)\<rparr>) \<subseteq> visited st'"
            by (rule "1.IH"[OF notin Some Inr False])
          then show ?thesis by auto
        qed
      qed
    qed
  qed
next
  case (2 ns links i st)
  then show ?case by (simp add: traverse_links.psimps)
next
  case (3 ns links i l rest st)
  note eq = "3.prems"[unfolded traverse_links.psimps(2)[OF "3.hyps"]]
  show ?case
  proof (cases "handle_link ns links i l (identified_inputs st)")
    case (Inl e)
    with eq show ?thesis by simp
  next
    case (Inr b)
    obtain x y where b: "b = (x, y)" by (cases b) auto
    show ?thesis
    proof (cases y)
      case True
      show ?thesis
      proof (cases "traverse ns links (str_int (from_node l)) (st\<lparr>identified_inputs := x\<rparr>)")
        case (Inl e)
        with eq Inr b True show ?thesis by simp
      next
        case res: (Inr st1)
        have "visited (st\<lparr>identified_inputs := x\<rparr>) \<subseteq> visited st1"
          by (rule "3.IH"(1)[OF Inr b[symmetric] True res])
        moreover have "traverse_links ns links i rest st1 = Inr st'"
          using eq Inr b True res by simp
        then have "visited st1 \<subseteq> visited st'"
          by (rule "3.IH"(2)[OF Inr b[symmetric] True res])
        ultimately show ?thesis by auto
      qed
    next
      case False
      have "traverse_links ns links i rest (st\<lparr>identified_inputs := x\<rparr>) = Inr st'"
        using eq Inr b False by simp
      then have "visited (st\<lparr>identified_inputs := x\<rparr>) \<subseteq> visited st'"
        by (rule "3.IH"(3)[OF Inr b[symmetric] False])
      then show ?thesis by simp
    qed
  qed
qed

lemma traverse_terminates: "All traverse_traverse_links_dom"
  apply (relation "inv_image (less_than <*lex*> less_than)
     (\<lambda>x. case x of
        Inl (ns, links, i, st) \<Rightarrow>
          (card (insert i (link_sources links) - visited st), 0::nat)
      | Inr (ns, links, i, ls, st) \<Rightarrow>
          (card ((link_sources links \<union> link_sources ls) - visited st), Suc (length ls)))")
  subgoal by (intro wf_inv_image wf_lex_prod wf_less_than)
  subgoal for ns links i st n incoming
    apply (simp only: in_inv_image sum.case prod.case in_lex_prod less_than_iff)
    apply (rule disjI1)
    apply simp
    apply (rule card_diff_less)
     apply assumption
    apply (erule get_node_inputs_from_links_subset)
    done
  subgoal for ns links i l rest st b x y
    apply (simp only: in_inv_image sum.case prod.case in_lex_prod less_than_iff)
    apply (rule lex_step)
       apply (rule finite_UnI; rule finite_link_sources)
      apply (simp add: link_sources_Cons)
      apply blast
     apply simp
    apply simp
    done
  subgoal for ns links i l rest st b x y st1
    apply (simp only: in_inv_image sum.case prod.case in_lex_prod less_than_iff)
    apply (rule lex_step)
       apply (rule finite_UnI; rule finite_link_sources)
      apply (simp add: link_sources_Cons)
      apply blast
     apply (drule traverse_visited_mono_dom(1)[of ns links "str_int (from_node l)" "st\<lparr>identified_inputs := x\<rparr>" st1])
      apply assumption
     apply simp
    apply simp
    done
  subgoal for ns links i l rest st b x y
    apply (simp only: in_inv_image sum.case prod.case in_lex_prod less_than_iff)
    apply (rule lex_step)
       apply (rule finite_UnI; rule finite_link_sources)
      apply (simp add: link_sources_Cons)
      apply blast
     apply simp
    apply simp
    done
  done

termination traverse
  by (rule traverse_terminates)

declare traverse.simps [simp del]

section \<open>Graph Loader and entry points\<close>

text \<open>\<^verbatim>\<open>{str(k): v for k, v in nodes_raw.items()}\<close>.\<close>

definition nodes_of_dict :: "(jval \<times> node) list \<Rightarrow> nodes" where
  "nodes_of_dict kvs = fold (\<lambda>(k, v) acc. AList.update (py_str k) v acc) kvs []"

text \<open>The loop over a node list: a record whose \<^verbatim>\<open>id\<close> is absent or \<^verbatim>\<open>None\<close> is skipped.\<close>

definition nodes_of_list :: "node list \<Rightarrow> nodes" where
  "nodes_of_list node_list =
     fold (\<lambda>node_data acc.
             (case nid node_data of
                None \<Rightarrow> acc
              | Some JNone \<Rightarrow> acc
              | Some i \<Rightarrow> AList.update (py_str i) node_data acc)) node_list []"

text \<open>The normalisation of \<^verbatim>\<open>workflow.get('nodes', {})\<close>; \<^verbatim>\<open>None\<close> when it is neither a dict nor a list.\<close>

definition normalize_nodes :: "workflow \<Rightarrow> nodes option" where
  "normalize_nodes w =
     (case wf_nodes w of
        None \<Rightarrow> Some (nodes_of_dict [])
      | Some (NodesDict kvs) \<Rightarrow> Some (nodes_of_dict kvs)
      | Some (NodesList node_list) \<Rightarrow> Some (nodes_of_list node_list)
      | Some NodesOther \<Rightarrow> None)"

text \<open>\<^verbatim>\<open>workflow.get('links', [])\<close>.\<close>

definition get_links :: "workflow \<Rightarrow> link list" where
  "get_links w = (case wf_links w of None \<Rightarrow> [] | Some ls \<Rightarrow> ls)"

definition init_state :: tstate where
  "init_state = \<lparr>identified_inputs = [], visited = {}\<rparr>"

definition trace_workflow_inputs :: "string \<Rightarrow> workflow \<Rightarrow> error + category_map" where
  "trace_workflow_inputs start_node_id w =
     (case normalize_nodes w of
        None \<Rightarrow> Inr []
      | Some ns \<Rightarrow>
          (case traverse ns (get_links w) start_node_id init_state of
             Inl e \<Rightarrow> Inl e
           | Inr st \<Rightarrow> Inr (identified_inputs st)))"

section \<open>Result Normalizer\<close>

text \<open>\<^verbatim>\<open>os.path.basename\<close> with the POSIX separator.\<close>

definition os_path_basename :: "string \<Rightarrow> string" where
  "os_path_basename p = rev (takeWhile (\<lambda>c. c \<noteq> CHR ''/'') (rev p))"

definition path_categories :: "string list" where
  "path_categories = [''Base Models'', ''VAE'', ''CLIP'', ''Checkpoint'', ''Model'', ''LoRA Models'']"

text \<open>The rewrite of \<^verbatim>\<open>item['value']\<close> for one item that is kept.\<close>

definition process_item :: "string \<Rightarrow> finding \<Rightarrow> finding" where
  "process_item category item =
     (case f_value item of
        Some (JList [value_to_process]) \<Rightarrow>
          (case value_to_process of
             JStr s \<Rightarrow>
               (if category \<in> set path_categories
                then item\<lparr>f_value := Some (JStr (os_path_basename s))\<rparr>
                else item\<lparr>f_value := Some value_to_process\<rparr>)
           | _ \<Rightarrow> item\<lparr>f_value := Some value_to_process\<rparr>)
      | _ \<Rightarrow> item)"

text \<open>The inner loop; \<^verbatim>\<open>node_ids\<close> is the list of identifiers already kept.\<close>

fun process_items :: "string \<Rightarrow> string list \<Rightarrow> finding list \<Rightarrow> finding list" where
  "process_items category node_ids [] = []"
| "process_items category node_ids (item # items) =
     (if f_node_id item \<in> set node_ids then process_items category node_ids items
      else process_item category item # process_items category (node_ids @ [f_node_id item]) items)"

definition process_workflow_metadata :: "category_map \<Rightarrow> category_map" where
  "process_workflow_metadata raw_metadata =
     fold (\<lambda>(category, items) processed_metadata.
             AList.update category (process_items category [] items) processed_metadata)
          raw_metadata []"

section \<open>Top-level entry point\<close>

text \<open>The result is \<^verbatim>\<open>None\<close>, a category map, or an exception that leaves the function.\<close>

definition analyze_comfyui_workflow :: "workflow_input \<Rightarrow> error + category_map option" where
  "analyze_comfyui_workflow wi =
     (case wi of
        NotADict \<Rightarrow> Inr None
      | WorkflowDict w \<Rightarrow>
          (case normalize_nodes w of
             None \<Rightarrow> Inr None
           | Some nodes_dict \<Rightarrow>
               (if nodes_dict = [] \<or> get_links w = [] then Inr None
                else
                  (case find_image_save_node nodes_dict of
                     None \<Rightarrow> Inr None
                   | Some (image_save_node_id, image_save_node_data) \<Rightarrow>
                       (if image_save_node_id = [] then Inr None
                        else
                          (case trace_workflow_inputs image_save_node_id w of
                             Inl e \<Rightarrow> Inl e
                           | Inr identified \<Rightarrow> Inr (Some (process_workflow_metadata identified))))))))"

section \<open>Notions used in the statements\<close>

text \<open>A non-empty node record without the key \<^verbatim>\<open>mode\<close>, given the explicit mode 0.\<close>

definition with_default_mode :: "node \<Rightarrow> node" where
  "with_default_mode n = (if mode n = None \<and> node_truthy n then n\<lparr>mode := Some 0\<rparr> else n)"

definition with_default_modes :: "nodes \<Rightarrow> nodes" where
  "with_default_modes ns = map (\<lambda>(k, n). (k, with_default_mode n)) ns"

text \<open>A finding value keeps its shape under a second normalization unless it is a list of one
  element that is again a list of one element.\<close>

definition not_doubly_wrapped :: "finding \<Rightarrow> bool" where
  "not_doubly_wrapped item = (\<forall>x. f_value item \<noteq> Some (JList [JList [x]]))"

text \<open>
  The linked parts of a node, in the words of the specification rather than as the loop of the
  code: the edges of the list are taken in order, the source of each edge is resolved, and
  its parts are appended after the parts of the edges before it. The set of the nodes that
  the resolution has visited is handed from one edge to the next, so a source that an
  earlier edge has resolved contributes nothing a second time.
\<close>

fun linked_parts :: "nodes \<Rightarrow> link list \<Rightarrow> link list \<Rightarrow> string set \<Rightarrow> error + (string list \<times> string set)" where
  "linked_parts ns all_links [] pv = Inr ([], pv)"
| "linked_parts ns all_links (e # es) pv =
     (case trace_prompt_source ns all_links (str_int (from_node e)) pv of
        Inl err \<Rightarrow> Inl err
      | Inr (ps, pv1) \<Rightarrow>
          (case linked_parts ns all_links es pv1 of
             Inl err \<Rightarrow> Inl err
           | Inr (rest, pv2) \<Rightarrow> Inr (ps @ rest, pv2)))"

text \<open>The prompt that the conditioning handler computes for a source node.\<close>

definition prompt_of :: "nodes \<Rightarrow> link list \<Rightarrow> string \<Rightarrow> jval option" where
  "prompt_of ns links i =
     (case trace_prompt_source ns links i {} of
        Inl e \<Rightarrow> None
      | Inr (parts, pv) \<Rightarrow> Some (JStr (py_strip (py_join '' '' parts))))"

definition fixed_categories :: "string set" where
  "fixed_categories =
     {''Source Nodes (No Parameters)'', ''LoRA Models'', ''Base Models'',
      ''Positive Prompts'', ''Negative Prompts''}"

text \<open>
  What the traversal keeps true of \<^verbatim>\<open>identified_inputs\<close>: outside the parameter categories
  no category lists a node twice; model findings carry the type \<^verbatim>\<open>MODEL\<close>; a prompt finding
  carries the prompt of its node; only the known categories are filled.
\<close>

definition has_prompt :: "nodes \<Rightarrow> link list \<Rightarrow> finding \<Rightarrow> bool" where
  "has_prompt ns links item =
     (\<exists>v. f_value item = Some v \<and> prompt_of ns links (f_node_id item) = Some v)"

definition map_invariant :: "nodes \<Rightarrow> link list \<Rightarrow> category_map \<Rightarrow> bool" where
  "map_invariant ns links m =
     ((\<forall>c \<in> fixed_categories. distinct (map f_node_id (category_items c m)))
      \<and> (\<forall>c \<in> {''LoRA Models'', ''Base Models''}.
            \<forall>item \<in> set (category_items c m). f_type item = Some ''MODEL'')
      \<and> (\<forall>c \<in> {''Positive Prompts'', ''Negative Prompts''}.
            \<forall>item \<in> set (category_items c m). has_prompt ns links item)
      \<and> (\<forall>c. c \<notin> fixed_categories \<and> c \<notin> set param_link_types \<longrightarrow> category_items c m = []))"

definition tracer_invariant :: "nodes \<Rightarrow> link list \<Rightarrow> tstate \<Rightarrow> bool" where
  "tracer_invariant ns links st =
     (map_invariant ns links (identified_inputs st)
      \<and> f_node_id ` set (category_items ''Source Nodes (No Parameters)'' (identified_inputs st))
          \<subseteq> visited st)"

text \<open>The number that a string of decimal digits denotes, from an accumulator.\<close>

definition digits_value :: "nat \<Rightarrow> string \<Rightarrow> nat" where
  "digits_value acc ds = foldl (\<lambda>a c. a * 10 + (code_point c - 48)) acc ds"

section \<open>Example workflows\<close>

definition mk_node :: "string \<Rightarrow> input_slot list option \<Rightarrow> jval list option \<Rightarrow> node" where
  "mk_node t ins ws =
     \<lparr>nid = None, ntype = Some t, title = None, mode = None, inputs = ins,
      widgets_values = ws, other_keys = False\<rparr>"

definition mk_link :: "int \<Rightarrow> int \<Rightarrow> int \<Rightarrow> int \<Rightarrow> int \<Rightarrow> string \<Rightarrow> link" where
  "mk_link n src src_idx dst dst_idx t =
     \<lparr>link_num = n, from_node = src, from_idx = src_idx, to_node = dst, to_idx = dst_idx,
      link_type = t\<rparr>"

definition slot :: "string \<Rightarrow> string \<Rightarrow> input_slot" where
  "slot n t = \<lparr>slot_name = Some n, slot_type = Some t\<rparr>"

text \<open>A workflow whose only node, the sink, is stored under a key that is not a number.\<close>

definition named_sink_workflow :: workflow_input where
  "named_sink_workflow =
     WorkflowDict
       \<lparr>wf_nodes = Some (NodesDict
          [(JStr ''out'', mk_node ''SaveImage'' (Some [slot ''images'' ''IMAGE'']) None)]),
        wf_links = Some [mk_link 1 2 0 1 0 ''IMAGE'']\<rparr>"

text \<open>
  A sink with three conditioning inputs: the slot \<^verbatim>\<open>positive\<close> is fed by node 4, the slot
  \<^verbatim>\<open>negative\<close> by node 9, which is not in the workflow, and the slot \<^verbatim>\<open>clip\<close> by node 7,
  an enabled node without links or parameters.
\<close>

definition fox_nodes :: nodes where
  "fox_nodes =
     [(''1'', mk_node ''SaveImage''
               (Some [slot ''images'' ''IMAGE'', slot ''positive'' ''CONDITIONING'',
                      slot ''negative'' ''CONDITIONING'', slot ''clip'' ''CONDITIONING'']) None),
      (''4'', mk_node ''CLIPTextEncode'' None (Some [JStr ''a red fox''])),
      (''7'', mk_node ''CLIPTextEncode'' None None)]"

definition fox_links :: "link list" where
  "fox_links = [mk_link 1 4 0 1 1 ''CONDITIONING'', mk_link 2 9 0 1 2 ''CONDITIONING'',
                mk_link 3 7 0 1 3 ''CONDITIONING'']"


definition dangling_link :: link where
  "dangling_link = mk_link 2 9 0 1 2 ''CONDITIONING''"

text \<open>
  A sampler whose model comes from a LoRA loader that takes its model from a checkpoint
  loader, and the same graph with a \<^verbatim>\<open>Reroute\<close> node (enabled, without
  \<^verbatim>\<open>widgets_values\<close>) in the place of the LoRA loader.
\<close>

definition lora_nodes :: nodes where
  "lora_nodes =
     [(''1'', mk_node ''SaveImage'' (Some [slot ''images'' ''IMAGE'']) None),
      (''2'', mk_node ''KSampler'' (Some [slot ''model'' ''MODEL'']) (Some [JInt 20])),
      (''3'', mk_node ''LoraLoader'' (Some [slot ''model'' ''MODEL''])
               (Some [JStr ''loras/detail.safetensors'', JFloat ''1.0''])),
      (''4'', mk_node ''CheckpointLoader'' None (Some [JStr ''checkpoints/model.safetensors'']))]"

definition lora_links :: "link list" where
  "lora_links = [mk_link 1 2 0 1 0 ''IMAGE'', mk_link 2 3 0 2 0 ''MODEL'', mk_link 3 4 0 3 0 ''MODEL'']"

definition lora_finding :: finding where
  "lora_finding =
     \<lparr>f_node_id = ''3'', f_node_type = ''LoraLoader'', f_title = ''Node 3 (LoraLoader)'',
      f_type = Some ''MODEL'',
      f_value = Some (JList [JStr ''loras/detail.safetensors'', JFloat ''1.0'']),
      f_description = None\<rparr>"

definition checkpoint_finding :: finding where
  "checkpoint_finding =
     \<lparr>f_node_id = ''4'', f_node_type = ''CheckpointLoader'', f_title = ''Node 4 (CheckpointLoader)'',
      f_type = Some ''MODEL'',
      f_value = Some (JList [JStr ''checkpoints/model.safetensors'']),
      f_description = None\<rparr>"

definition reroute_nodes :: nodes where
  "reroute_nodes =
     [(''1'', mk_node ''SaveImage'' (Some [slot ''images'' ''IMAGE'']) None),
      (''2'', mk_node ''KSampler'' (Some [slot ''model'' ''MODEL'']) (Some [JInt 20])),
      (''3'', mk_node ''Reroute'' None None),
      (''4'', mk_node ''CheckpointLoaderSimple'' None (Some [JStr ''model.safetensors'']))]"

definition reroute_workflow :: workflow_input where
  "reroute_workflow =
     WorkflowDict
       \<lparr>wf_nodes = Some (NodesDict (map (\<lambda>(k, n). (JStr k, n)) reroute_nodes)),
        wf_links = Some lora_links\<rparr>"


text \<open>
  A concatenation node whose first widget value is a nested sequence, and the workflow of a
  concatenation node fed by a \<^verbatim>\<open>STRING\<close> edge that feeds the negative slot of the sink (as
  a node list, and as the node mapping it normalizes to).
\<close>

definition nested_widget_nodes :: nodes where
  "nested_widget_nodes =
     [(''5'', mk_node ''TextConcatenate'' None (Some [JList [], JStr '', masterpiece'']))]"

definition concat_workflow :: workflow_input where
  "concat_workflow =
     WorkflowDict
       \<lparr>wf_nodes = Some (NodesList
          [(mk_node ''SaveImage''
              (Some [slot ''images'' ''IMAGE'', slot ''negative'' ''CONDITIONING'']) None)
             \<lparr>nid := Some (JInt 1)\<rparr>,
           (mk_node ''TextConcatenate'' None (Some [JStr '', masterpiece'']))\<lparr>nid := Some (JInt 5)\<rparr>,
           (mk_node ''PrimitiveString'' None (Some [JStr ''a cat'']))\<lparr>nid := Some (JInt 6)\<rparr>]),
        wf_links = Some [mk_link 1 5 0 1 1 ''CONDITIONING'', mk_link 2 6 0 5 0 ''STRING'']\<rparr>"

definition concat_nodes :: nodes where
  "concat_nodes =
     [(''1'', (mk_node ''SaveImage''
              (Some [slot ''images'' ''IMAGE'', slot ''negative'' ''CONDITIONING'']) None)
             \<lparr>nid := Some (JInt 1)\<rparr>),
      (''5'', (mk_node ''TextConcatenate'' None (Some [JStr '', masterpiece'']))\<lparr>nid := Some (JInt 5)\<rparr>),
      (''6'', (mk_node ''PrimitiveString'' None (Some [JStr ''a cat'']))\<lparr>nid := Some (JInt 6)\<rparr>)]"

definition concat_links :: "link list" where
  "concat_links = [mk_link 1 5 0 1 1 ''CONDITIONING'', mk_link 2 6 0 5 0 ''STRING'']"

text \<open>
  A concatenation node with four incoming edges: two text edges from different sources, an
  \<^verbatim>\<open>INT\<close> edge between them, and a second text edge from the first source. The last link
  belongs to another target.
\<close>

definition two_source_nodes :: nodes where
  "two_source_nodes =
     [(''5'', mk_node ''TextConcatenate'' None (Some [JStr '', masterpiece''])),
      (''6'', mk_node ''PrimitiveString'' None (Some [JStr ''a cat''])),
      (''7'', mk_node ''PrimitiveString'' None (Some [JStr ''on a mat''])),
      (''8'', mk_node ''PrimitiveInt'' None (Some [JInt 42]))]"

definition two_source_links :: "link list" where
  "two_source_links =
     [mk_link 1 6 0 5 0 ''STRING'', mk_link 2 8 0 5 1 ''INT'', mk_link 3 7 0 5 2 ''TEXT'',
      mk_link 4 6 0 5 3 ''STRING'', mk_link 5 7 0 9 0 ''STRING'']"

definition concat_finding :: finding where
  "concat_finding =
     \<lparr>f_node_id = ''5'', f_node_type = ''TextConcatenate'', f_title = ''Node 5'',
      f_type = Some ''TEXT'', f_value = Some (JStr ''a cat , masterpiece''), f_description = None\<rparr>"

text \<open>Category maps for the Result Normalizer: a value wrapped twice, and values wrapped once.\<close>

definition nested_value_map :: category_map where
  "nested_value_map =
     [(''VAE'', [\<lparr>f_node_id = ''4'', f_node_type = ''VAELoader'', f_title = ''Node 4 (VAELoader)'',
                 f_type = Some ''VAE'', f_value = Some (JList [JList [JStr ''vae/a.safetensors'']]),
                 f_description = None\<rparr>])]"

definition flat_value_map :: category_map where
  "flat_value_map =
     [(''VAE'', [\<lparr>f_node_id = ''4'', f_node_type = ''VAELoader'', f_title = ''Node 4 (VAELoader)'',
                 f_type = Some ''VAE'', f_value = Some (JList [JStr ''vae/a.safetensors'']),
                 f_description = None\<rparr>,
                \<lparr>f_node_id = ''4'', f_node_type = ''VAELoader'', f_title = ''Node 4 (VAELoader)'',
                 f_type = Some ''VAE'', f_value = Some (JList [JStr ''vae/a.safetensors'']),
                 f_description = None\<rparr>]),
      (''LATENT'', [\<lparr>f_node_id = ''3'', f_node_type = ''KSampler'', f_title = ''Node 3 (KSampler)'',
                 f_type = Some ''LATENT'', f_value = Some (JList [JInt 20, JList [JInt 1]]),
                 f_description = None\<rparr>])]"

text \<open>
  An image-to-image workflow in which one VAE loader feeds both the decoder and the encoder,
  and a workflow whose two LoRA loaders feed each other (a cycle), with the category map the
  tracer returns for it.
\<close>

definition img2img_workflow :: workflow where
  "img2img_workflow =
     \<lparr>wf_nodes = Some (NodesDict
        [(JStr ''1'', mk_node ''SaveImage'' (Some [slot ''images'' ''IMAGE'']) None),
         (JStr ''2'', mk_node ''VAEDecode'' (Some [slot ''samples'' ''LATENT'', slot ''vae'' ''VAE'']) None),
         (JStr ''3'', mk_node ''KSampler'' (Some [slot ''latent_image'' ''LATENT''])
                       (Some [JInt 42, JStr ''euler''])),
         (JStr ''4'', mk_node ''VAELoader'' None (Some [JStr ''vae/ft-mse.safetensors''])),
         (JStr ''5'', mk_node ''VAEEncode'' (Some [slot ''pixels'' ''IMAGE'', slot ''vae'' ''VAE'']) None)]),
      wf_links = Some
        [mk_link 1 2 0 1 0 ''IMAGE'', mk_link 2 3 0 2 0 ''LATENT'', mk_link 3 4 0 2 1 ''VAE'',
         mk_link 4 5 0 3 0 ''LATENT'', mk_link 5 4 0 5 1 ''VAE'']\<rparr>"

definition cyclic_workflow :: workflow where
  "cyclic_workflow =
     \<lparr>wf_nodes = Some (NodesDict
        [(JStr ''1'', mk_node ''SaveImage'' (Some [slot ''images'' ''IMAGE'']) None),
         (JStr ''2'', mk_node ''LoraLoader'' (Some [slot ''model'' ''MODEL'']) (Some [JStr ''a.safetensors''])),
         (JStr ''3'', mk_node ''LoraLoader'' (Some [slot ''model'' ''MODEL'']) (Some [JStr ''b.safetensors'']))]),
      wf_links = Some
        [mk_link 1 2 0 1 0 ''IMAGE'', mk_link 2 3 0 2 0 ''MODEL'', mk_link 3 2 0 3 0 ''MODEL'']\<rparr>"

definition cyclic_result :: category_map where
  "cyclic_result =
     [(''LoRA Models'',
       [\<lparr>f_node_id = ''3'', f_node_type = ''LoraLoader'', f_title = ''Node 3 (LoraLoader)'',
         f_type = Some ''MODEL'', f_value = Some (JList [JStr ''b.safetensors'']), f_description = None\<rparr>,
        \<lparr>f_node_id = ''2'', f_node_type = ''LoraLoader'', f_title = ''Node 2 (LoraLoader)'',
         f_type = Some ''MODEL'', f_value = Some (JList [JStr ''a.safetensors'']), f_description = None\<rparr>])]"

section \<open>Auxiliary facts\<close>

subsection \<open>Decimal text and \<^verbatim>\<open>int()\<close>\<close>

text \<open>\<^verbatim>\<open>int(str(i))\<close> is \<open>i\<close>: an identifier taken from a link always converts back, and the
  Edge Index then returns the links whose target is that number, in order.\<close>

lemma code_point_digit_char: "d < 10 \<Longrightarrow> code_point (digit_char d) = 48 + d"
  by (simp add: code_point_def digit_char_def)

lemma is_digit_digit_char: "d < 10 \<Longrightarrow> is_digit (digit_char d)"
  by (simp add: is_digit_def code_point_digit_char)

lemma digit_not_int_space: "is_digit c \<Longrightarrow> \<not> is_int_space c"
  by (auto simp: is_digit_def is_int_space_def Let_def)

lemma digit_not_sign: "is_digit c \<Longrightarrow> c \<noteq> CHR ''-'' \<and> c \<noteq> CHR ''+'' \<and> c \<noteq> CHR ''_''"
  by (auto simp: is_digit_def code_point_def)

lemma str_nat_digits: "str_nat n \<noteq> [] \<and> (\<forall>c \<in> set (str_nat n). is_digit c)"
proof (induction n rule: str_nat.induct)
  case (1 n)
  show ?case
  proof (cases "n < 10")
    case True
    then show ?thesis by (simp add: str_nat.simps[of n] is_digit_digit_char)
  next
    case False
    with 1 show ?thesis by (simp add: str_nat.simps[of n] is_digit_digit_char)
  qed
qed

lemma parse_digits_all:
  "\<forall>c \<in> set ds. is_digit c \<Longrightarrow> ds \<noteq> [] \<or> prev \<Longrightarrow> parse_digits prev acc ds = Some (digits_value acc ds)"
  by (induction ds arbitrary: prev acc) (auto simp: digits_value_def)

lemma digits_value_str_nat: "digits_value 0 (str_nat n) = n"
proof (induction n rule: str_nat.induct)
  case (1 n)
  show ?case
  proof (cases "n < 10")
    case True
    then show ?thesis by (simp add: str_nat.simps[of n] digits_value_def code_point_digit_char)
  next
    case False
    with 1 have "digits_value 0 (str_nat (n div 10)) = n div 10" by simp
    with False show ?thesis
      by (simp add: str_nat.simps[of n] digits_value_def code_point_digit_char)
  qed
qed

lemma int_strip_no_space:
  "s \<noteq> [] \<Longrightarrow> \<not> is_int_space (hd s) \<Longrightarrow> \<not> is_int_space (last s) \<Longrightarrow> int_strip s = s"
proof -
  assume a: "s \<noteq> []" "\<not> is_int_space (hd s)" "\<not> is_int_space (last s)"
  then have "dropWhile is_int_space s = s" by (cases s) auto
  moreover from a have "dropWhile is_int_space (rev s) = rev s"
    by (cases "rev s") (auto simp: last_rev hd_rev)
  ultimately show ?thesis by (simp add: int_strip_def)
qed

lemma py_int_str_int: "py_int (str_int i) = Inr i"
proof -
  let ?ds = "str_nat (nat \<bar>i\<bar>)"
  have ds: "?ds \<noteq> []" "\<forall>c \<in> set ?ds. is_digit c" using str_nat_digits by auto
  then have hd: "is_digit (hd ?ds)" and last: "is_digit (last ?ds)" by auto
  have parse: "parse_digits False 0 ?ds = Some (nat \<bar>i\<bar>)"
    using parse_digits_all[OF ds(2), of False 0] ds(1) by (simp add: digits_value_str_nat)
  show ?thesis
  proof (cases "i < 0")
    case True
    then have s: "str_int i = CHR ''-'' # ?ds" by (simp add: str_int_def abs_if)
    have minus: "\<not> is_int_space CHR ''-''" by (simp add: is_int_space_def code_point_def)
    have "\<not> is_int_space (last ?ds)" using last by (rule digit_not_int_space)
    then have "int_strip (CHR ''-'' # ?ds) = CHR ''-'' # ?ds"
      using ds(1) minus by (intro int_strip_no_space) simp_all
    then show ?thesis using True parse by (simp add: py_int_def s)
  next
    case False
    then have s: "str_int i = ?ds" by (simp add: str_int_def abs_if)
    have strip: "int_strip ?ds = ?ds"
      using ds(1) hd last by (intro int_strip_no_space) (auto simp: digit_not_int_space)
    obtain c cs where ccs: "?ds = c # cs" using ds(1) by (cases ?ds) auto
    with hd have "c \<noteq> CHR ''-''" "c \<noteq> CHR ''+''" using digit_not_sign by auto
    then show ?thesis using False parse ccs strip by (simp add: py_int_def s)
  qed
qed

text \<open>The separators 28 to 31 around the digits are whitespace for \<^verbatim>\<open>str.strip()\<close> but
  not for \<^verbatim>\<open>int()\<close>, which raises on them; a no-break space is skipped by both.\<close>

lemma py_int_separator:
  "py_int (CHR 0x1C # ''10'') = Inl ValueError
   \<and> py_int (''10'' @ [CHR 0x1F]) = Inl ValueError
   \<and> py_strip (CHR 0x1C # ''10'') = ''10''
   \<and> py_int (CHR 0xA0 # '' 10'' @ [CHR 0x0A]) = Inr 10"
  by code_simp

lemma get_node_inputs_from_links_numeric:
  "get_node_inputs_from_links (str_int i) ls = Inr (filter (\<lambda>l. to_node l = i) ls)"
  by (induction ls) (simp_all add: py_int_str_int)

lemma get_node_inputs_from_links_int:
  "py_int s = Inr k \<Longrightarrow> get_node_inputs_from_links s ls = Inr (filter (\<lambda>l. to_node l = k) ls)"
  by (induction ls) simp_all

subsection \<open>Category maps and findings\<close>

lemma category_items_ensure_category [simp]:
  "category_items c' (ensure_category c m) = category_items c' m"
  by (auto simp: category_items_def ensure_category_def map_add_def split: option.splits)

lemma category_items_append_item:
  "category_items c' (append_item c item m) =
     (if c' = c then category_items c m @ [item] else category_items c' m)"
  by (simp add: category_items_def append_item_def update_conv')



lemma link_finding_sel [simp]:
  "f_node_id (link_finding d i n t) = i"
  "f_type (link_finding d i n t) = Some t"
  "f_value (link_finding d i n t) = Some (JList (case widgets_values n of None \<Rightarrow> [] | Some ws \<Rightarrow> ws))"
  by (simp_all add: link_finding_def Let_def)

lemma lora_scenario:
  "traverse lora_nodes lora_links ''1'' init_state
     = Inr \<lparr>identified_inputs = [(''LoRA Models'', [lora_finding]), (''Base Models'', [checkpoint_finding])],
            visited = {''1'', ''2'', ''3'', ''4''}\<rparr>"
  by code_simp

lemma model_source_without_widgets:
  "get_node ns (str_int (from_node l)) = Some n \<Longrightarrow> get_mode n = 0 \<Longrightarrow> \<not> has_widgets n \<Longrightarrow>
     handle_model_link ns l identified = (identified, False)"
  by (simp add: handle_model_link_def)

lemma param_source_without_widgets:
  "get_node ns (str_int (from_node l)) = Some n \<Longrightarrow> get_mode n = 0 \<Longrightarrow> \<not> has_widgets n \<Longrightarrow>
     handle_param_link ns l identified = (identified, True)"
  by (simp add: handle_param_link_def)

subsection \<open>The loop of the Text Resolver\<close>

lemma trace_prompt_links_Cons_text:
  assumes "link_type l \<in> set text_link_types"
    and "trace_prompt_source ns links (str_int (from_node l)) pv = Inr (traced, pv1)"
  shows "trace_prompt_links ns links (l # rest) parts found pv
         = trace_prompt_links ns links rest (parts @ traced) (found \<or> traced \<noteq> []) pv1"
  using assms by simp

lemma trace_prompt_links_Cons_other:
  "link_type l \<notin> set text_link_types \<Longrightarrow>
     trace_prompt_links ns links (l # rest) parts found pv = trace_prompt_links ns links rest parts found pv"
  by simp

lemma trace_prompt_links_filter:
  "trace_prompt_links ns links (filter (\<lambda>l. link_type l \<in> set text_link_types) ls) parts found pv
     = trace_prompt_links ns links ls parts found pv"
proof (induction ls arbitrary: parts found pv)
  case Nil
  show ?case by simp
next
  case (Cons l ls)
  show ?case
  proof (cases "link_type l \<in> set text_link_types")
    case False
    with Cons show ?thesis by simp
  next
    case True
    show ?thesis
    proof (cases "trace_prompt_source ns links (str_int (from_node l)) pv")
      case (Inl e)
      with True show ?thesis by simp
    next
      case (Inr r)
      obtain traced pv1 where r: "r = (traced, pv1)" by (cases r) auto
      with True Inr Cons show ?thesis by simp
    qed
  qed
qed

text \<open>The loop computes the linked parts: it appends them to its accumulator, and its flag
  says whether any part was found.\<close>

lemma trace_prompt_links_linked_parts:
  "trace_prompt_links ns links ls parts found pv =
     (case linked_parts ns links (filter (\<lambda>l. link_type l \<in> set text_link_types) ls) pv of
        Inl e \<Rightarrow> Inl e
      | Inr (linked, pv') \<Rightarrow> Inr (parts @ linked, found \<or> linked \<noteq> [], pv'))"
proof (induction ls arbitrary: parts found pv)
  case Nil
  show ?case by simp
next
  case (Cons l ls)
  show ?case
  proof (cases "link_type l \<in> set text_link_types")
    case False
    with Cons show ?thesis by simp
  next
    case True
    show ?thesis
    proof (cases "trace_prompt_source ns links (str_int (from_node l)) pv")
      case (Inl e)
      with True show ?thesis by simp
    next
      case (Inr r)
      obtain traced pv1 where r: "r = (traced, pv1)" by (cases r) auto
      show ?thesis
        using True Inr r Cons[of "parts @ traced" True pv1] Cons[of parts found pv1]
        by (auto split: sum.splits)
    qed
  qed
qed

lemma trace_prompt_links_no_text:
  "\<forall>l \<in> set ls. link_type l \<notin> set text_link_types \<Longrightarrow>
     trace_prompt_links ns links ls parts found pv = Inr (parts, found, pv)"
  by (induction ls) auto

lemma resolution_empty_missing:
  "get_node ns i = None \<Longrightarrow> trace_prompt_source ns links i {} = Inr ([], {i})"
  by (simp add: trace_prompt_source.simps[of ns links i "{}"])

lemma resolution_empty_disabled:
  "get_node ns i = Some n \<Longrightarrow> get_mode n \<noteq> 0 \<Longrightarrow> trace_prompt_source ns links i {} = Inr ([], {i})"
  by (simp add: trace_prompt_source.simps[of ns links i "{}"])

lemma resolution_empty_no_text_no_widgets:
  assumes "get_node ns i = Some n" "get_mode n = 0" "\<not> has_widgets n"
    and "get_node_inputs_from_links i links = Inr incoming"
    and "\<forall>l \<in> set incoming. link_type l \<notin> set text_link_types"
  shows "trace_prompt_source ns links i {} = Inr ([], {i})"
  using assms
  by (auto simp: trace_prompt_source.simps[of ns links i "{}"] trace_prompt_links_no_text
      concat_widget_parts_def fallback_widget_parts_def has_widgets_def
      split: option.splits list.splits)

subsection \<open>Result Normalizer\<close>

lemma update_fresh: "k \<notin> fst ` set al \<Longrightarrow> AList.update k v al = al @ [(k, v)]"
  by (induction al) auto

lemma fold_update_distinct:
  "distinct (map fst (acc @ m)) \<Longrightarrow>
     fold (\<lambda>(c, items) acc. AList.update c (g c items) acc) m acc
       = acc @ map (\<lambda>(c, items). (c, g c items)) m"
proof (induction m arbitrary: acc)
  case Nil
  show ?case by simp
next
  case (Cons p m)
  obtain c items where p: "p = (c, items)" by (cases p)
  have fresh: "c \<notin> fst ` set acc" using Cons.prems p by auto
  have "distinct (map fst ((acc @ [(c, g c items)]) @ m))" using Cons.prems p by auto
  from Cons.IH[OF this] show ?case using p fresh by (simp add: update_fresh)
qed

lemma fold_update_keys_distinct:
  "distinct (map fst acc) \<Longrightarrow>
     distinct (map fst (fold (\<lambda>(c, items) acc. AList.update c (g c items) acc) m acc))"
  by (induction m arbitrary: acc) (auto simp: distinct_update split: prod.splits)

lemma set_update_subset: "set (AList.update k v al) \<subseteq> insert (k, v) (set al)"
  by (induction al) auto

lemma fold_update_entries:
  "(c, v) \<in> set (fold (\<lambda>(c, items) acc. AList.update c (g c items) acc) m acc) \<Longrightarrow>
     (c, v) \<in> set acc \<or> (\<exists>items. (c, items) \<in> set m \<and> v = g c items)"
proof (induction m arbitrary: acc)
  case Nil
  then show ?case by simp
next
  case (Cons p m)
  obtain c' items' where p: "p = (c', items')" by (cases p)
  from Cons.prems p have "(c, v) \<in> set (fold (\<lambda>(c, items) acc. AList.update c (g c items) acc) m
      (AList.update c' (g c' items') acc))" by simp
  from Cons.IH[OF this] show ?case
    using set_update_subset[of c' "g c' items'" acc] p by auto
qed

lemma process_item_node_id [simp]: "f_node_id (process_item c item) = f_node_id item"
  by (auto simp: process_item_def split: option.splits jval.splits list.splits)

lemma process_items_subset:
  "set (process_items c seen items) \<subseteq> process_item c ` set items"
  by (induction items arbitrary: seen) auto

lemma process_items_ids:
  "distinct (map f_node_id (process_items c seen items))
   \<and> set (map f_node_id (process_items c seen items)) \<inter> set seen = {}"
proof (induction items arbitrary: seen)
  case Nil
  show ?case by simp
next
  case (Cons item items)
  show ?case
  proof (cases "f_node_id item \<in> set seen")
    case True
    with Cons[of seen] show ?thesis by simp
  next
    case False
    with Cons[of "seen @ [f_node_id item]"] show ?thesis by auto
  qed
qed

lemma process_items_distinct_ids:
  "distinct (map f_node_id items) \<Longrightarrow> set (map f_node_id items) \<inter> set seen = {} \<Longrightarrow>
     process_items c seen items = map (process_item c) items"
  by (induction items arbitrary: seen) auto

lemma process_item_stable:
  "not_doubly_wrapped item \<Longrightarrow> process_item c (process_item c item) = process_item c item"
  by (auto simp: process_item_def not_doubly_wrapped_def split: option.splits jval.splits list.splits)

lemma process_items_idem:
  assumes "\<forall>item \<in> set items. not_doubly_wrapped item"
  shows "process_items c [] (process_items c [] items) = process_items c [] items"
proof -
  have "process_items c [] (process_items c [] items) = map (process_item c) (process_items c [] items)"
    using process_items_ids[of c "[]" items] by (intro process_items_distinct_ids) auto
  also have "\<dots> = process_items c [] items"
  proof (rule map_idI)
    fix x assume "x \<in> set (process_items c [] items)"
    then obtain item where "item \<in> set items" "x = process_item c item"
      using process_items_subset[of c "[]" items] by auto
    with assms show "process_item c x = x" by (simp add: process_item_stable)
  qed
  finally show ?thesis .
qed

subsection \<open>Records without a mode\<close>

lemmas branch_cong = if_cong sum.case_cong option.case_cong prod.case_cong bool.case_cong

lemma with_default_mode_fields [simp]:
  "get_mode (with_default_mode n) = get_mode n"
  "node_truthy (with_default_mode n) = node_truthy n"
  "has_widgets (with_default_mode n) = has_widgets n"
  "ntype (with_default_mode n) = ntype n"
  "title (with_default_mode n) = title n"
  "inputs (with_default_mode n) = inputs n"
  "widgets_values (with_default_mode n) = widgets_values n"
  by (auto simp: with_default_mode_def get_mode_def node_truthy_def has_widgets_def)

lemma map_of_with_default_modes:
  "map_of (with_default_modes ns) k = map_option with_default_mode (map_of ns k)"
  by (induction ns) (auto simp: with_default_modes_def)

lemma get_node_with_default_modes:
  "get_node (with_default_modes ns) k = map_option with_default_mode (get_node ns k)"
  by (simp add: get_node_def map_of_with_default_modes split: option.splits)

lemma with_default_mode_derived [simp]:
  "concat_widget_parts (with_default_mode n) = concat_widget_parts n"
  "fallback_widget_parts (with_default_mode n) = fallback_widget_parts n"
  "model_category (with_default_mode n) = model_category n"
  "link_finding d i (with_default_mode n) t = link_finding d i n t"
  "record_source_node i (with_default_mode n) = record_source_node i n"
  by (simp_all add: concat_widget_parts_def fallback_widget_parts_def model_category_def
      has_model_input_def link_finding_def record_source_node_def source_finding_def Let_def
      fun_eq_iff
      cong: branch_cong)

lemma trace_prompt_default_modes:
  "trace_prompt_source (with_default_modes ns) links i pv = trace_prompt_source ns links i pv"
  "trace_prompt_links (with_default_modes ns) links ls parts found pv
     = trace_prompt_links ns links ls parts found pv"
proof (induction ns links i pv and ns links ls parts found pv
    rule: trace_prompt_source_trace_prompt_links.induct)
  case (1 ns links i pv)
  note unfold = trace_prompt_source.simps[of "with_default_modes ns" links i pv]
    trace_prompt_source.simps[of ns links i pv] get_node_with_default_modes
  show ?case
  proof (cases "i \<in> pv")
    case True
    then show ?thesis by (simp add: unfold cong: branch_cong)
  next
    case notin: False
    show ?thesis
    proof (cases "get_node ns i")
      case None
      with notin show ?thesis by (simp add: unfold cong: branch_cong)
    next
      case (Some n)
      show ?thesis
      proof (cases "get_mode n \<noteq> 0")
        case True
        with notin Some show ?thesis by (simp add: unfold cong: branch_cong)
      next
        case enabled: False
        show ?thesis
        proof (cases "get_node_inputs_from_links i links")
          case (Inl e)
          with notin Some enabled show ?thesis by (simp add: unfold cong: branch_cong)
        next
          case (Inr incoming)
          from "1.IH"[OF notin Some enabled Inr] notin Some enabled Inr
          show ?thesis
            by (simp add: unfold cong: branch_cong)
        qed
      qed
    qed
  qed
next
  case (2 ns links parts found pv)
  show ?case by simp
next
  case (3 ns links l rest parts found pv)
  show ?case
  proof (cases "link_type l \<in> set text_link_types")
    case False
    with "3.IH"(4) show ?thesis by simp
  next
    case True
    note src = "3.IH"(1)[OF True]
    show ?thesis
    proof (cases "trace_prompt_source ns links (str_int (from_node l)) pv")
      case (Inl e)
      with True src show ?thesis by simp
    next
      case (Inr r)
      obtain x y where r: "r = (x, y)" by (cases r)
      show ?thesis
      proof (cases "x \<noteq> []")
        case True
        from "3.IH"(2)[OF \<open>link_type l \<in> set text_link_types\<close> Inr r[symmetric] True]
          \<open>link_type l \<in> set text_link_types\<close> Inr r True src
        show ?thesis by simp
      next
        case False
        from "3.IH"(3)[OF \<open>link_type l \<in> set text_link_types\<close> Inr r[symmetric] False]
          \<open>link_type l \<in> set text_link_types\<close> Inr r False src
        show ?thesis by simp
      qed
    qed
  qed
qed

lemma handle_link_default_modes:
  "handle_link (with_default_modes ns) links cur l identified = handle_link ns links cur l identified"
proof -
  have name: "input_name_on_current_node (with_default_modes ns) cur (to_idx l)
      = input_name_on_current_node ns cur (to_idx l)"
    by (cases "get_node ns cur")
      (simp_all add: input_name_on_current_node_def get_node_with_default_modes)
  have finding: "prompt_finding (with_default_modes ns) i p = prompt_finding ns i p" for i p
    by (cases "map_of ns i") (simp_all add: prompt_finding_def map_of_with_default_modes)
  have cond: "handle_conditioning_link cur l (with_default_modes ns) identified links
      = handle_conditioning_link cur l ns identified links"
    by (simp add: handle_conditioning_link_def Let_def name finding trace_prompt_default_modes
        cong: branch_cong)
  have model: "handle_model_link (with_default_modes ns) l identified = handle_model_link ns l identified"
    by (cases "get_node ns (str_int (from_node l))")
      (simp_all add: handle_model_link_def Let_def get_node_with_default_modes cong: branch_cong)
  have param: "handle_param_link (with_default_modes ns) l identified = handle_param_link ns l identified"
    by (cases "get_node ns (str_int (from_node l))")
      (simp_all add: handle_param_link_def Let_def get_node_with_default_modes cong: branch_cong)
  show ?thesis by (simp add: handle_link_def cond model param)
qed

lemma traverse_default_modes:
  "traverse (with_default_modes ns) links i st = traverse ns links i st"
  "traverse_links (with_default_modes ns) links i ls st = traverse_links ns links i ls st"
proof (induction ns links i st and ns links i ls st rule: traverse_traverse_links.induct)
  case (1 ns links i st)
  note unfold = traverse.simps[of "with_default_modes ns" links i st]
    traverse.simps[of ns links i st] get_node_with_default_modes
  show ?case
  proof (cases "i \<in> visited st")
    case True
    then show ?thesis by (simp add: unfold cong: branch_cong)
  next
    case notin: False
    show ?thesis
    proof (cases "get_node ns i")
      case None
      with notin show ?thesis by (simp add: unfold cong: branch_cong)
    next
      case (Some n)
      show ?thesis
      proof (cases "get_node_inputs_from_links i links")
        case (Inl e)
        with notin Some show ?thesis by (simp add: unfold cong: branch_cong)
      next
        case (Inr incoming)
        show ?thesis
        proof (cases "incoming = []")
          case True
          with notin Some Inr show ?thesis by (simp add: unfold cong: branch_cong)
        next
          case False
          from "1.IH"[OF notin Some Inr False] notin Some Inr False
          show ?thesis by (simp add: unfold cong: branch_cong)
        qed
      qed
    qed
  qed
next
  case (2 ns links i st)
  show ?case by simp
next
  case (3 ns links i l rest st)
  show ?case
  proof (cases "handle_link ns links i l (identified_inputs st)")
    case (Inl e)
    then show ?thesis by (simp add: handle_link_default_modes)
  next
    case (Inr b)
    obtain x y where b: "b = (x, y)" by (cases b)
    show ?thesis
    proof (cases y)
      case True
      note src = "3.IH"(1)[OF Inr b[symmetric] True]
      show ?thesis
      proof (cases "traverse ns links (str_int (from_node l)) (st\<lparr>identified_inputs := x\<rparr>)")
        case (Inl e)
        with Inr b True src show ?thesis by (simp add: handle_link_default_modes)
      next
        case res: (Inr st1)
        from "3.IH"(2)[OF Inr b[symmetric] True res] Inr b True src res
        show ?thesis by (simp add: handle_link_default_modes)
      qed
    next
      case False
      from "3.IH"(3)[OF Inr b[symmetric] False] Inr b False
      show ?thesis by (simp add: handle_link_default_modes)
    qed
  qed
qed

subsection \<open>The invariant of the tracer\<close>

lemma map_invariant_same:
  "map_invariant ns links m \<Longrightarrow> \<forall>c. category_items c m' = category_items c m \<Longrightarrow>
     map_invariant ns links m'"
  unfolding map_invariant_def by simp

lemma param_not_fixed: "c \<in> set param_link_types \<Longrightarrow> c \<notin> fixed_categories"
  by (auto simp: param_link_types_def fixed_categories_def)

lemma map_invariant_append:
  assumes inv: "map_invariant ns links m"
    and m': "\<forall>c'. category_items c' m' = (if c' = c then category_items c m @ [item] else category_items c' m)"
    and known: "c \<in> fixed_categories \<or> c \<in> set param_link_types"
    and fresh: "c \<in> fixed_categories \<Longrightarrow> f_node_id item \<notin> f_node_id ` set (category_items c m)"
    and model: "c \<in> {''LoRA Models'', ''Base Models''} \<Longrightarrow> f_type item = Some ''MODEL''"
    and prompt: "c \<in> {''Positive Prompts'', ''Negative Prompts''} \<Longrightarrow> has_prompt ns links item"
  shows "map_invariant ns links m'"
proof -
  have 1: "distinct (map f_node_id (category_items c' m'))" if "c' \<in> fixed_categories" for c'
    using inv m' fresh that by (auto simp: map_invariant_def)
  have 2: "f_type x = Some ''MODEL''"
    if "c' \<in> {''LoRA Models'', ''Base Models''}" "x \<in> set (category_items c' m')" for c' x
  proof -
    from that(2) m' have "(c' = c \<and> x = item) \<or> x \<in> set (category_items c' m)"
      by (auto split: if_splits)
    then show ?thesis using inv model that(1) by (auto simp: map_invariant_def)
  qed
  have 3: "has_prompt ns links x"
    if "c' \<in> {''Positive Prompts'', ''Negative Prompts''}" "x \<in> set (category_items c' m')" for c' x
  proof -
    from that(2) m' have "(c' = c \<and> x = item) \<or> x \<in> set (category_items c' m)"
      by (auto split: if_splits)
    then show ?thesis using inv prompt that(1) by (auto simp: map_invariant_def)
  qed
  have 4: "category_items c' m' = []" if "c' \<notin> fixed_categories" "c' \<notin> set param_link_types" for c'
    using inv m' known that by (auto simp: map_invariant_def)
  show ?thesis
    unfolding map_invariant_def using 1 2 3 4 by blast
qed

lemma any_value_eq_False:
  "any_value_eq p items = Inr False \<Longrightarrow> \<forall>item \<in> set items. f_value item \<noteq> Some (JStr p)"
  by (induction items) (auto split: option.splits if_splits)

lemma prompt_category_cases:
  "prompt_category nm = Some c \<Longrightarrow> c \<in> {''Positive Prompts'', ''Negative Prompts''}"
  by (auto simp: prompt_category_def split: option.splits if_splits)

lemma handle_conditioning_link_invariant:
  assumes inv: "map_invariant ns links m"
    and h: "handle_conditioning_link cur l ns m links = Inr m'"
  shows "map_invariant ns links m'
     \<and> category_items ''Source Nodes (No Parameters)'' m' = category_items ''Source Nodes (No Parameters)'' m"
proof (cases "input_name_on_current_node ns cur (to_idx l)")
  case (Inl e)
  with h show ?thesis by (simp add: handle_conditioning_link_def)
next
  case (Inr nm)
  show ?thesis
  proof (cases "prompt_category nm")
    case None
    with h Inr inv show ?thesis by (simp add: handle_conditioning_link_def)
  next
    case (Some c)
    note c = prompt_category_cases[OF Some]
    show ?thesis
    proof (cases "trace_prompt_source ns links (str_int (from_node l)) {}")
      case (Inl e)
      with h Inr Some show ?thesis by (simp add: handle_conditioning_link_def)
    next
      case res: (Inr r)
      obtain parts pv where r: "r = (parts, pv)" by (cases r)
      let ?p = "py_strip (py_join '' '' parts)"
      let ?i = "str_int (from_node l)"
      have po: "prompt_of ns links ?i = Some (JStr ?p)"
        using res r by (simp add: prompt_of_def)
      show ?thesis
      proof (cases "parts = []")
        case True
        with h Inr Some res r inv show ?thesis by (simp add: handle_conditioning_link_def)
      next
        case nonempty: False
        show ?thesis
        proof (cases "any_value_eq ?p (category_items c m)")
          case (Inl e)
          with h Inr Some res r nonempty show ?thesis
            by (simp add: handle_conditioning_link_def Let_def)
        next
          case any: (Inr b)
          show ?thesis
          proof (cases b)
            case True
            with h Inr Some res r nonempty any have "m' = ensure_category c m"
              by (simp add: handle_conditioning_link_def Let_def)
            with inv show ?thesis by (simp add: map_invariant_same)
          next
            case False
            with h Inr Some res r nonempty any
            have m': "m' = append_item c (prompt_finding ns ?i ?p) (ensure_category c m)"
              by (simp add: handle_conditioning_link_def Let_def)
            have items: "\<forall>c'. category_items c' m'
                = (if c' = c then category_items c m @ [prompt_finding ns ?i ?p] else category_items c' m)"
              by (simp add: m' category_items_append_item)
            have novalue: "\<forall>item \<in> set (category_items c m). f_value item \<noteq> Some (JStr ?p)"
              using any False by (auto dest: any_value_eq_False)
            have fresh: "f_node_id (prompt_finding ns ?i ?p) \<notin> f_node_id ` set (category_items c m)"
            proof
              assume "f_node_id (prompt_finding ns ?i ?p) \<in> f_node_id ` set (category_items c m)"
              then obtain item where item: "item \<in> set (category_items c m)" "f_node_id item = ?i"
                by (auto simp: prompt_finding_def)
              with inv c have "has_prompt ns links item"
                by (auto simp: map_invariant_def)
              with po novalue item show False by (auto simp: has_prompt_def)
            qed
            have "map_invariant ns links m'"
            proof (rule map_invariant_append[OF inv items])
              show "c \<in> fixed_categories \<or> c \<in> set param_link_types"
                using c by (auto simp: fixed_categories_def)
              show "f_node_id (prompt_finding ns ?i ?p) \<notin> f_node_id ` set (category_items c m)"
                by (rule fresh)
              show "f_type (prompt_finding ns ?i ?p) = Some ''MODEL''"
                if "c \<in> {''LoRA Models'', ''Base Models''}"
                using that c by auto
              show "has_prompt ns links (prompt_finding ns ?i ?p)"
                using po by (simp add: has_prompt_def prompt_finding_def)
            qed
            moreover have "category_items ''Source Nodes (No Parameters)'' m'
                = category_items ''Source Nodes (No Parameters)'' m"
              using items c by auto
            ultimately show ?thesis by simp
          qed
        qed
      qed
    qed
  qed
qed


lemma model_category_cases: "model_category n \<in> {''LoRA Models'', ''Base Models''}"
  by (simp add: model_category_def Let_def)

lemma handle_model_link_invariant:
  assumes inv: "map_invariant ns links m"
    and lt: "link_type l = ''MODEL''"
    and h: "handle_model_link ns l m = (m', r)"
  shows "map_invariant ns links m'
     \<and> category_items ''Source Nodes (No Parameters)'' m' = category_items ''Source Nodes (No Parameters)'' m"
proof (cases "get_node ns (str_int (from_node l))")
  case None
  with h inv show ?thesis by (simp add: handle_model_link_def)
next
  case (Some n)
  let ?i = "str_int (from_node l)"
  let ?c = "model_category n"
  let ?item = "link_finding ''Unknown Model Source'' ?i n ''MODEL''"
  note c = model_category_cases[of n]
  show ?thesis
  proof (cases "get_mode n = 0 \<and> has_widgets n")
    case False
    with h inv Some show ?thesis by (auto simp: handle_model_link_def Let_def split: if_splits)
  next
    case True
    show ?thesis
    proof (cases "list_ex (\<lambda>item. f_node_id item = ?i \<and> f_type item = Some ''MODEL'') (category_items ?c m)")
      case present: True
      with h Some True lt have "m' = ensure_category ?c m"
        by (simp add: handle_model_link_def Let_def)
      with inv show ?thesis by (simp add: map_invariant_same)
    next
      case absent: False
      with h Some True lt have m': "m' = append_item ?c ?item (ensure_category ?c m)"
        by (simp add: handle_model_link_def Let_def)
      have items: "\<forall>c'. category_items c' m'
          = (if c' = ?c then category_items ?c m @ [?item] else category_items c' m)"
        by (simp add: m' category_items_append_item)
      have typed: "\<forall>item \<in> set (category_items ?c m). f_type item = Some ''MODEL''"
        using inv c unfolding map_invariant_def by blast
      have fresh: "f_node_id ?item \<notin> f_node_id ` set (category_items ?c m)"
        using absent typed by (auto simp: list_ex_iff)
      have "map_invariant ns links m'"
      proof (rule map_invariant_append[OF inv items])
        show "?c \<in> fixed_categories \<or> ?c \<in> set param_link_types"
          using c by (auto simp: fixed_categories_def)
        show "f_node_id ?item \<notin> f_node_id ` set (category_items ?c m)" by (rule fresh)
        show "f_type ?item = Some ''MODEL''" by simp
        show "has_prompt ns links ?item" if "?c \<in> {''Positive Prompts'', ''Negative Prompts''}"
          using that c by auto
      qed
      moreover have "category_items ''Source Nodes (No Parameters)'' m'
          = category_items ''Source Nodes (No Parameters)'' m"
        using items c by auto
      ultimately show ?thesis by simp
    qed
  qed
qed

lemma handle_param_link_invariant:
  assumes inv: "map_invariant ns links m"
    and lt: "link_type l \<in> set param_link_types"
    and h: "handle_param_link ns l m = (m', r)"
  shows "map_invariant ns links m'
     \<and> category_items ''Source Nodes (No Parameters)'' m' = category_items ''Source Nodes (No Parameters)'' m"
proof (cases "get_node ns (str_int (from_node l))")
  case None
  with h inv show ?thesis by (simp add: handle_param_link_def)
next
  case (Some n)
  let ?i = "str_int (from_node l)"
  let ?c = "link_type l"
  let ?item = "link_finding ''Unknown Source'' ?i n ?c"
  note nf = param_not_fixed[OF lt]
  show ?thesis
  proof (cases "get_mode n = 0 \<and> has_widgets n")
    case False
    with h inv Some show ?thesis by (auto simp: handle_param_link_def Let_def split: if_splits)
  next
    case True
    with h Some have m': "m' = append_item ?c ?item (ensure_category ?c m)"
      by (simp add: handle_param_link_def Let_def)
    have items: "\<forall>c'. category_items c' m'
        = (if c' = ?c then category_items ?c m @ [?item] else category_items c' m)"
      by (simp add: m' category_items_append_item)
    have "map_invariant ns links m'"
    proof (rule map_invariant_append[OF inv items])
      show "?c \<in> fixed_categories \<or> ?c \<in> set param_link_types" using lt by simp
      show "f_node_id ?item \<notin> f_node_id ` set (category_items ?c m)" if "?c \<in> fixed_categories"
        using that nf by simp
      show "f_type ?item = Some ''MODEL''" if "?c \<in> {''LoRA Models'', ''Base Models''}"
        using that nf by (auto simp: fixed_categories_def)
      show "has_prompt ns links ?item" if "?c \<in> {''Positive Prompts'', ''Negative Prompts''}"
        using that nf by (auto simp: fixed_categories_def)
    qed
    moreover have "category_items ''Source Nodes (No Parameters)'' m'
        = category_items ''Source Nodes (No Parameters)'' m"
      using items nf by (auto simp: fixed_categories_def)
    ultimately show ?thesis by simp
  qed
qed

lemma handle_link_invariant:
  assumes inv: "map_invariant ns links m"
    and h: "handle_link ns links cur l m = Inr (m', r)"
  shows "map_invariant ns links m'
     \<and> category_items ''Source Nodes (No Parameters)'' m' = category_items ''Source Nodes (No Parameters)'' m"
proof (cases "link_type l = ''CONDITIONING''")
  case True
  with h have "handle_conditioning_link cur l ns m links = Inr m'"
    by (auto simp: handle_link_def split: sum.splits)
  from handle_conditioning_link_invariant[OF inv this] show ?thesis .
next
  case notcond: False
  show ?thesis
  proof (cases "link_type l = ''MODEL''")
    case True
    with h notcond have "handle_model_link ns l m = (m', r)" by (simp add: handle_link_def)
    from handle_model_link_invariant[OF inv True this] show ?thesis .
  next
    case notmodel: False
    show ?thesis
    proof (cases "link_type l \<in> set param_link_types")
      case True
      with h notcond notmodel have "handle_param_link ns l m = (m', r)" by (simp add: handle_link_def)
      from handle_param_link_invariant[OF inv True this] show ?thesis .
    next
      case False
      with h notcond notmodel inv show ?thesis by (simp add: handle_link_def)
    qed
  qed
qed


lemma record_source_node_invariant:
  assumes inv: "tracer_invariant ns links st"
    and notin: "i \<notin> visited st"
  shows "tracer_invariant ns links
           \<lparr>identified_inputs = record_source_node i n (identified_inputs st),
            visited = insert i (visited st)\<rparr>"
proof (cases "get_mode n = 0 \<and> \<not> has_widgets n")
  case False
  with inv show ?thesis
    by (auto simp: tracer_invariant_def record_source_node_def Let_def)
next
  case True
  let ?c = "''Source Nodes (No Parameters)''"
  let ?m = "identified_inputs st"
  define item where "item = source_finding i n"
  have item: "f_node_id item = i" by (simp add: item_def source_finding_def Let_def)
  have m': "record_source_node i n ?m = append_item ?c item (ensure_category ?c ?m)"
    using True by (simp add: record_source_node_def item_def)
  have items: "\<forall>c'. category_items c' (record_source_node i n ?m)
      = (if c' = ?c then category_items ?c ?m @ [item] else category_items c' ?m)"
    by (simp add: m' category_items_append_item)
  have sub: "f_node_id ` set (category_items ?c ?m) \<subseteq> visited st"
    using inv by (simp add: tracer_invariant_def)
  have "map_invariant ns links (record_source_node i n ?m)"
  proof (rule map_invariant_append[OF _ items])
    show "map_invariant ns links ?m" using inv by (simp add: tracer_invariant_def)
    show "?c \<in> fixed_categories \<or> ?c \<in> set param_link_types" by (simp add: fixed_categories_def)
    show "f_node_id item \<notin> f_node_id ` set (category_items ?c ?m)"
      using sub notin item by auto
    show "f_type item = Some ''MODEL''" if "?c \<in> {''LoRA Models'', ''Base Models''}"
      using that by simp
    show "has_prompt ns links item" if "?c \<in> {''Positive Prompts'', ''Negative Prompts''}"
      using that by simp
  qed
  moreover have "f_node_id ` set (category_items ?c (record_source_node i n ?m)) \<subseteq> insert i (visited st)"
    using items sub item by auto
  ultimately show ?thesis by (simp add: tracer_invariant_def)
qed

lemma traverse_invariant:
  "tracer_invariant ns links st \<Longrightarrow> traverse ns links i st = Inr st' \<Longrightarrow> tracer_invariant ns links st'"
  "tracer_invariant ns links st \<Longrightarrow> traverse_links ns links i ls st = Inr st' \<Longrightarrow>
     tracer_invariant ns links st'"
proof (induction ns links i st and ns links i ls st arbitrary: st' and st'
    rule: traverse_traverse_links.induct)
  case (1 ns links i st)
  note eq = "1.prems"(2)[unfolded traverse.simps[of ns links i st]]
  note inv = "1.prems"(1)
  show ?case
  proof (cases "i \<in> visited st")
    case True
    with eq inv show ?thesis by simp
  next
    case notin: False
    have inv1: "tracer_invariant ns links (st\<lparr>visited := insert i (visited st)\<rparr>)"
      using inv by (auto simp: tracer_invariant_def)
    show ?thesis
    proof (cases "get_node ns i")
      case None
      with eq notin inv1 show ?thesis by auto
    next
      case (Some n)
      show ?thesis
      proof (cases "get_node_inputs_from_links i links")
        case (Inl e)
        with eq notin Some show ?thesis by simp
      next
        case (Inr incoming)
        show ?thesis
        proof (cases "incoming = []")
          case True
          with eq notin Some Inr have "st' = \<lparr>identified_inputs = record_source_node i n (identified_inputs st),
              visited = insert i (visited st)\<rparr>" by simp
          with record_source_node_invariant[OF inv notin] show ?thesis by simp
        next
          case False
          with eq notin Some Inr
          have "traverse_links ns links i incoming (st\<lparr>visited := insert i (visited st)\<rparr>) = Inr st'"
            by simp
          from "1.IH"[OF notin Some Inr False inv1 this] show ?thesis .
        qed
      qed
    qed
  qed
next
  case (2 ns links i st)
  then show ?case by simp
next
  case (3 ns links i l rest st)
  note eq = "3.prems"(2)[unfolded traverse_links.simps]
  note inv = "3.prems"(1)
  show ?case
  proof (cases "handle_link ns links i l (identified_inputs st)")
    case (Inl e)
    with eq show ?thesis by simp
  next
    case (Inr b)
    obtain x y where b: "b = (x, y)" by (cases b)
    have inv1: "tracer_invariant ns links (st\<lparr>identified_inputs := x\<rparr>)"
      using handle_link_invariant[of ns links "identified_inputs st" i l x y] inv Inr b
      by (simp add: tracer_invariant_def)
    show ?thesis
    proof (cases y)
      case True
      show ?thesis
      proof (cases "traverse ns links (str_int (from_node l)) (st\<lparr>identified_inputs := x\<rparr>)")
        case (Inl e)
        with eq Inr b True show ?thesis by simp
      next
        case res: (Inr st1)
        have inv2: "tracer_invariant ns links st1"
          by (rule "3.IH"(1)[OF Inr b[symmetric] True inv1 res])
        have "traverse_links ns links i rest st1 = Inr st'"
          using eq Inr b True res by simp
        from "3.IH"(2)[OF Inr b[symmetric] True res inv2 this] show ?thesis .
      qed
    next
      case False
      have "traverse_links ns links i rest (st\<lparr>identified_inputs := x\<rparr>) = Inr st'"
        using eq Inr b False by simp
      from "3.IH"(3)[OF Inr b[symmetric] False inv1 this] show ?thesis .
    qed
  qed
qed

lemma tracer_invariant_init: "tracer_invariant ns links init_state"
  by (simp add: tracer_invariant_def map_invariant_def init_state_def category_items_def)

lemma tracer_no_duplicates:
  assumes "trace_workflow_inputs start w = Inr m" and "c \<notin> set param_link_types"
  shows "distinct (map f_node_id (category_items c m))"
proof (cases "normalize_nodes w")
  case None
  with assms(1) show ?thesis by (simp add: trace_workflow_inputs_def category_items_def)
next
  case (Some ns)
  with assms(1) obtain st where st: "traverse ns (get_links w) start init_state = Inr st"
    and m: "m = identified_inputs st"
    by (auto simp: trace_workflow_inputs_def split: sum.splits)
  have "map_invariant ns (get_links w) m"
    using traverse_invariant(1)[OF tracer_invariant_init st] m by (simp add: tracer_invariant_def)
  with assms(2) show ?thesis
    by (cases "c \<in> fixed_categories") (auto simp: map_invariant_def)
qed

lemma normalizer_no_duplicates:
  assumes "(c, items) \<in> set (process_workflow_metadata m)"
  shows "distinct (map f_node_id items)"
proof -
  from assms have "(c, items) \<in> set (fold (\<lambda>(c, items) acc. AList.update c (process_items c [] items) acc) m [])"
    by (simp add: process_workflow_metadata_def)
  from fold_update_entries[OF this] obtain raw where "items = process_items c [] raw" by auto
  then show ?thesis using process_items_ids[of c "[]" raw] by simp
qed


section \<open>Claims\<close>





text \<open>
  C2. The specification says that the traversal of an accepted workflow raises no
  exception, in particular when the incoming edges of a node stored under a non-numeric key
  are queried. The code converts the key with \<^verbatim>\<open>int()\<close>: for the accepted workflow
  \<^const>\<open>named_sink_workflow\<close> the entry point leaves with \<^verbatim>\<open>ValueError\<close>. (An
  identifier that was taken from a link converts back, \<open>py_int_str_int\<close>; the key of the
  sink is the one identifier that does not come from a link.)
\<close>

theorem named_sink_raises_ValueError:
  "analyze_comfyui_workflow named_sink_workflow = Inl ValueError"
  by code_simp

text \<open>
  C3. The specification says that the tracer recurses into an enabled source of a \<^verbatim>\<open>MODEL\<close> edge
  whether or not a finding was recorded. In the code the call \<^verbatim>\<open>_traverse(output_node_id)\<close>
  stands inside \<^verbatim>\<open>if model_value:\<close>, so an enabled source without \<^verbatim>\<open>widgets_values\<close>
  is not entered (\<open>model_source_without_widgets\<close>; the parameter branch does recurse,
  \<open>param_source_without_widgets\<close>): behind the \<^verbatim>\<open>Reroute\<close> node of
  \<^const>\<open>reroute_nodes\<close> the checkpoint loader is never reached, and the analysis returns
  an empty map.
\<close>

theorem reroute_model_source_not_entered:
  "handle_model_link reroute_nodes (mk_link 2 3 0 2 0 ''MODEL'') [] = ([], False)
   \<and> traverse reroute_nodes lora_links ''1'' init_state
       = Inr \<lparr>identified_inputs = [], visited = {''1'', ''2''}\<rparr>
   \<and> analyze_comfyui_workflow reroute_workflow = Inr (Some [])"
  by code_simp




text \<open>
  C5. The specification says that a concatenation node contributes its \<^verbatim>\<open>widgets_values\<close> entries
  converted to strings. The code converts the entries that are strings or numbers and skips
  every other entry: a nested sequence in front of \<^verbatim>\<open>", masterpiece"\<close> leaves no part.
\<close>

theorem nested_widget_not_converted:
  "trace_prompt_source nested_widget_nodes [] ''5'' {} = Inr (['', masterpiece''], {''5''})
   \<and> map py_str [JList [], JStr '', masterpiece''] = [''[]'', '', masterpiece'']"
  by code_simp

text \<open>
  C5, as the code has it: for an enabled node \<open>s\<close> not yet visited in this resolution whose
  type contains \<^verbatim>\<open>concat\<close> (case-insensitive) and whose identifier reads as the number
  \<open>k\<close>, the parts are first the linked parts of all the links whose target is \<open>k\<close> and whose
  type is \<^verbatim>\<open>STRING\<close>, \<^verbatim>\<open>TEXT\<close> or \<^verbatim>\<open>CONDITIONING\<close>, edge by edge in the order of the
  link list and starting from the visited set with \<open>s\<close> added, then the node's own
  \<^verbatim>\<open>widgets_values\<close> entries that are strings or numbers, converted to strings; an
  exception of a resolution leaves the resolver. The caller joins the parts with one space
  and strips the result: the workflow \<^const>\<open>concat_workflow\<close> yields the prompt
  \<^verbatim>\<open>a cat , masterpiece\<close>.
\<close>

theorem concat_node_parts:
  "(get_node ns s = Some n \<and> get_mode n = 0 \<and> s \<notin> pv
     \<and> py_in ''concat'' (py_lower (case ntype n of None \<Rightarrow> ''Unknown Source'' | Some t \<Rightarrow> t))
     \<and> py_int s = Inr k
    \<longrightarrow> trace_prompt_source ns links s pv
         = (case linked_parts ns links
                   (filter (\<lambda>l. to_node l = k \<and> link_type l \<in> {''STRING'', ''TEXT'', ''CONDITIONING''}) links)
                   (insert s pv) of
              Inl e \<Rightarrow> Inl e
            | Inr (linked, pv') \<Rightarrow>
                Inr (linked @ map py_str (filter is_scalar (case widgets_values n of None \<Rightarrow> [] | Some ws \<Rightarrow> ws)),
                     pv')))
   \<and> py_strip (py_join '' '' [''a cat'', '', masterpiece'']) = ''a cat , masterpiece''
   \<and> analyze_comfyui_workflow concat_workflow = Inr (Some [(''Negative Prompts'', [concat_finding])])"
proof -
  have general: "trace_prompt_source ns links s pv
         = (case linked_parts ns links
                   (filter (\<lambda>l. to_node l = k \<and> link_type l \<in> {''STRING'', ''TEXT'', ''CONDITIONING''}) links)
                   (insert s pv) of
              Inl e \<Rightarrow> Inl e
            | Inr (linked, pv') \<Rightarrow>
                Inr (linked @ map py_str (filter is_scalar (case widgets_values n of None \<Rightarrow> [] | Some ws \<Rightarrow> ws)),
                     pv'))"
    if "get_node ns s = Some n" "get_mode n = 0" "s \<notin> pv"
      "py_in ''concat'' (py_lower (case ntype n of None \<Rightarrow> ''Unknown Source'' | Some t \<Rightarrow> t))"
      "py_int s = Inr k"
  proof -
    have types: "{''STRING'', ''TEXT'', ''CONDITIONING''} = set text_link_types"
      by (simp add: text_link_types_def)
    have incoming: "get_node_inputs_from_links s links = Inr (filter (\<lambda>l. to_node l = k) links)"
      using that(5) by (rule get_node_inputs_from_links_int)
    have edges: "filter (\<lambda>l. link_type l \<in> set text_link_types) (filter (\<lambda>l. to_node l = k) links)
                 = filter (\<lambda>l. to_node l = k \<and> link_type l \<in> {''STRING'', ''TEXT'', ''CONDITIONING''}) links"
      unfolding types by (induction links) auto
    show ?thesis
      using that(1-4) incoming
      by (simp add: trace_prompt_source.simps[of ns links s pv] concat_widget_parts_def
          trace_prompt_links_linked_parts[of ns links _ "[]" False] edges types
          split: option.splits sum.splits)
  qed
  have join: "py_strip (py_join '' '' [''a cat'', '', masterpiece'']) = ''a cat , masterpiece''"
    by code_simp
  have scenario: "analyze_comfyui_workflow concat_workflow = Inr (Some [(''Negative Prompts'', [concat_finding])])"
    by code_simp
  from general join scenario show ?thesis by blast
qed

theorem concat_node_parts_witness:
  "trace_prompt_source two_source_nodes two_source_links ''6'' {''5''} = Inr ([''a cat''], {''5'', ''6''})
   \<and> trace_prompt_source two_source_nodes two_source_links ''7'' {''5'', ''6''}
       = Inr ([''on a mat''], {''5'', ''6'', ''7''})
   \<and> trace_prompt_source two_source_nodes two_source_links ''6'' {''5'', ''6'', ''7''}
       = Inr ([], {''5'', ''6'', ''7''})
   \<and> trace_prompt_source two_source_nodes two_source_links ''5'' {}
       = Inr ([''a cat'', ''on a mat'', '', masterpiece''], {''5'', ''6'', ''7''})"
proof -
  let ?n = "mk_node ''TextConcatenate'' None (Some [JStr '', masterpiece''])"
  have h1: "get_node two_source_nodes ''5'' = Some ?n" by code_simp
  have h2: "get_mode ?n = 0" by code_simp
  have h3: "''5'' \<notin> ({} :: string set)" by simp
  have h4: "py_in ''concat'' (py_lower (case ntype ?n of None \<Rightarrow> ''Unknown Source'' | Some t \<Rightarrow> t))"
    by code_simp
  have h5: "py_int ''5'' = Inr 5" by code_simp
  have edges: "filter (\<lambda>l. to_node l = 5 \<and> link_type l \<in> {''STRING'', ''TEXT'', ''CONDITIONING''})
                 two_source_links
               = [mk_link 1 6 0 5 0 ''STRING'', mk_link 3 7 0 5 2 ''TEXT'', mk_link 4 6 0 5 3 ''STRING'']"
    by code_simp
  have e1: "trace_prompt_source two_source_nodes two_source_links ''6'' {''5''} = Inr ([''a cat''], {''5'', ''6''})"
    by code_simp
  have e2: "trace_prompt_source two_source_nodes two_source_links ''7'' {''5'', ''6''}
              = Inr ([''on a mat''], {''5'', ''6'', ''7''})"
    by code_simp
  have e3: "trace_prompt_source two_source_nodes two_source_links ''6'' {''5'', ''6'', ''7''}
              = Inr ([], {''5'', ''6'', ''7''})"
    by code_simp
  have linked: "linked_parts two_source_nodes two_source_links
                  [mk_link 1 6 0 5 0 ''STRING'', mk_link 3 7 0 5 2 ''TEXT'', mk_link 4 6 0 5 3 ''STRING'']
                  (insert ''5'' {})
                = Inr ([''a cat'', ''on a mat''], {''5'', ''6'', ''7''})"
    by code_simp
  have own: "map py_str (filter is_scalar (case widgets_values ?n of None \<Rightarrow> [] | Some ws \<Rightarrow> ws))
            = ['', masterpiece'']"
    by code_simp
  from concat_node_parts[of two_source_nodes "''5''" ?n "{}" 5 two_source_links] h1 h2 h3 h4 h5
  have "trace_prompt_source two_source_nodes two_source_links ''5'' {}
       = (case linked_parts two_source_nodes two_source_links
                 (filter (\<lambda>l. to_node l = 5 \<and> link_type l \<in> {''STRING'', ''TEXT'', ''CONDITIONING''})
                    two_source_links)
                 (insert ''5'' {}) of
            Inl e \<Rightarrow> Inl e
          | Inr (linked, pv') \<Rightarrow>
              Inr (linked @ map py_str (filter is_scalar (case widgets_values ?n of None \<Rightarrow> [] | Some ws \<Rightarrow> ws)),
                   pv'))"
    by blast
  then have "trace_prompt_source two_source_nodes two_source_links ''5'' {}
       = Inr ([''a cat'', ''on a mat'', '', masterpiece''], {''5'', ''6'', ''7''})"
    unfolding edges linked own by simp
  with e1 e2 e3 show ?thesis by simp
qed

text \<open>
  C6. For an enabled source of a \<^verbatim>\<open>MODEL\<close> edge with non-empty \<^verbatim>\<open>widgets_values\<close>, after the
  edge is handled the source is among the findings of \<^verbatim>\<open>LoRA Models\<close> if its type contains
  one of the LoRA keywords (case-insensitive) or else if it declares an input whose name is
  \<^verbatim>\<open>model\<close> (compared in lower case) of type \<^verbatim>\<open>MODEL\<close>, and among those of
  \<^verbatim>\<open>Base Models\<close> otherwise; no other category changes, and the tracer goes on into the
  source. In \<open>lora_scenario\<close> the LoRA loader and the checkpoint loader both appear.
\<close>

theorem model_source_category:
  assumes "link_type l = ''MODEL''"
    and "get_node ns (str_int (from_node l)) = Some n"
    and "get_mode n = 0"
    and "has_widgets n"
    and "handle_link ns links current_node_id l identified = Inr (identified', recurse)"
    and "category =
           (if list_ex (\<lambda>keyword. py_in keyword (py_lower (case ntype n of None \<Rightarrow> ''Unknown Model Source'' | Some t \<Rightarrow> t)))
                 [''lora'', ''loraloader'', ''loadlora'', ''applylora'', ''apply_lora'']
            then ''LoRA Models''
            else if (case inputs n of None \<Rightarrow> False
                     | Some ins \<Rightarrow> list_ex (\<lambda>d. py_lower (case slot_name d of None \<Rightarrow> [] | Some s \<Rightarrow> s) = ''model''
                                              \<and> slot_type d = Some ''MODEL'') ins)
            then ''LoRA Models'' else ''Base Models'')"
  shows "(\<exists>item \<in> set (category_items category identified').
            f_node_id item = str_int (from_node l) \<and> f_type item = Some ''MODEL'')
         \<and> (\<forall>c. c \<noteq> category \<longrightarrow> category_items c identified' = category_items c identified)
         \<and> recurse"
proof -
  have cat: "category = model_category n"
    using assms(6) by (simp add: model_category_def has_model_input_def lora_loader_keywords_def)
  have "handle_link ns links current_node_id l identified = Inr (handle_model_link ns l identified)"
    using assms(1) by (simp add: handle_link_def)
  then have eq: "handle_model_link ns l identified = (identified', recurse)"
    using assms(5) by simp
  show ?thesis
    using eq assms(1-4) unfolding cat
    by (auto simp: handle_model_link_def Let_def category_items_append_item list_ex_iff
        split: if_splits)
qed



theorem model_source_category_witness:
  "handle_link lora_nodes lora_links ''2'' (mk_link 2 3 0 2 0 ''MODEL'') []
     = Inr ([(''LoRA Models'', [lora_finding])], True)
   \<and> (\<exists>item \<in> set (category_items ''LoRA Models'' [(''LoRA Models'', [lora_finding])]).
         f_node_id item = ''3'' \<and> f_type item = Some ''MODEL'')"
proof -
  let ?l = "mk_link 2 3 0 2 0 ''MODEL''"
  let ?n = "mk_node ''LoraLoader'' (Some [slot ''model'' ''MODEL''])
               (Some [JStr ''loras/detail.safetensors'', JFloat ''1.0''])"
  have h1: "link_type ?l = ''MODEL''" by (simp add: mk_link_def)
  have h2: "get_node lora_nodes (str_int (from_node ?l)) = Some ?n" by code_simp
  have h3: "get_mode ?n = 0" by code_simp
  have h4: "has_widgets ?n" by code_simp
  have h5: "handle_link lora_nodes lora_links ''2'' ?l [] = Inr ([(''LoRA Models'', [lora_finding])], True)"
    by code_simp
  have h6: "''LoRA Models'' =
           (if list_ex (\<lambda>keyword. py_in keyword (py_lower (case ntype ?n of None \<Rightarrow> ''Unknown Model Source'' | Some t \<Rightarrow> t)))
                 [''lora'', ''loraloader'', ''loadlora'', ''applylora'', ''apply_lora'']
            then ''LoRA Models''
            else if (case inputs ?n of None \<Rightarrow> False
                     | Some ins \<Rightarrow> list_ex (\<lambda>d. py_lower (case slot_name d of None \<Rightarrow> [] | Some s \<Rightarrow> s) = ''model''
                                              \<and> slot_type d = Some ''MODEL'') ins)
            then ''LoRA Models'' else ''Base Models'')"
    by code_simp
  have h7: "str_int (from_node ?l) = ''3''" by code_simp
  from model_source_category[OF h1 h2 h3 h4 h5 h6] h5 h7 show ?thesis by simp
qed

text \<open>
  C7. The specification says that the Result Normalizer is idempotent on every category map,
  including maps whose values are nested lists. A value that is a one-element list of a
  one-element list loses one level in each pass.
\<close>

theorem normalizer_not_idempotent_on_nested_lists:
  "process_workflow_metadata (process_workflow_metadata nested_value_map)
     \<noteq> process_workflow_metadata nested_value_map"
  by code_simp

text \<open>
  C7, as the code has it: on every category map in which no finding value is a one-element
  list whose element is itself a one-element list, normalizing twice gives the same map as
  normalizing once.
\<close>

theorem normalizer_idempotent:
  assumes "\<forall>(c, items) \<in> set m. \<forall>item \<in> set items. \<forall>x. f_value item \<noteq> Some (JList [JList [x]])"
  shows "process_workflow_metadata (process_workflow_metadata m) = process_workflow_metadata m"
proof -
  let ?g = "\<lambda>c items. process_items c [] items"
  let ?m1 = "process_workflow_metadata m"
  have dist: "distinct (map fst ?m1)"
    unfolding process_workflow_metadata_def by (rule fold_update_keys_distinct) simp
  have "process_workflow_metadata ?m1 = map (\<lambda>(c, items). (c, ?g c items)) ?m1"
    using fold_update_distinct[of "[]" ?m1 ?g] dist
    by (simp add: process_workflow_metadata_def)
  also have "\<dots> = ?m1"
  proof (rule map_idI)
    fix p assume p: "p \<in> set ?m1"
    obtain c v where cv: "p = (c, v)" by (cases p)
    with p have "(c, v) \<in> set (fold (\<lambda>(c, items) acc. AList.update c (?g c items) acc) m [])"
      by (simp add: process_workflow_metadata_def)
    from fold_update_entries[OF this] obtain items where items: "(c, items) \<in> set m" "v = ?g c items"
      by auto
    have "\<forall>item \<in> set items. not_doubly_wrapped item"
      using assms items(1) by (auto simp: not_doubly_wrapped_def)
    then have "?g c v = v" using items(2) by (simp add: process_items_idem)
    then show "(case p of (c, items) \<Rightarrow> (c, ?g c items)) = p" using cv by simp
  qed
  finally show ?thesis .
qed

theorem normalizer_idempotent_witness:
  "process_workflow_metadata (process_workflow_metadata flat_value_map)
     = process_workflow_metadata flat_value_map"
proof -
  have h: "\<forall>(c, items) \<in> set flat_value_map. \<forall>item \<in> set items. \<forall>x. f_value item \<noteq> Some (JList [JList [x]])"
    by (simp add: flat_value_map_def)
  show ?thesis by (rule normalizer_idempotent[OF h])
qed

text \<open>
  C8. The specification says that the traversal terminates and that each category's findings
  contain no duplicate \<^verbatim>\<open>node_id\<close>. The parameter branch appends without any test: in
  \<^const>\<open>img2img_workflow\<close> the VAE loader is reached over two \<^verbatim>\<open>VAE\<close> edges and the
  tracer lists it twice under \<^verbatim>\<open>VAE\<close>.
\<close>

theorem parameter_category_lists_node_twice:
  "map_sum id (map (\<lambda>(c, items). (c, map f_node_id items))) (trace_workflow_inputs ''1'' img2img_workflow)
     = Inr [(''LATENT'', [''3'']), (''VAE'', [''4'', ''4''])]"
  by code_simp

text \<open>
  C8, as the code has it: on every node mapping and edge list, cyclic or not, the recursion
  of the tracer and that of the Text Resolver terminate (the domain predicates of the two
  recursive definitions hold for all arguments), and a node already in the visited set is
  left at once. In the category map of the tracer every category other than the seven
  parameter categories lists each \<^verbatim>\<open>node_id\<close> at most once; in the map that the entry
  point returns, after the Result Normalizer, every category does.
\<close>

theorem traversal_terminates_without_duplicates:
  "traverse_traverse_links_dom (Inl (ns, links, start, st))
   \<and> trace_prompt_source_trace_prompt_links_dom (Inl (ns, links, i, pv))
   \<and> (start \<in> visited st \<longrightarrow> traverse ns links start st = Inr st)
   \<and> (trace_workflow_inputs start w = Inr m \<and> c \<notin> set param_link_types
        \<longrightarrow> distinct (map f_node_id (category_items c m)))
   \<and> (analyze_comfyui_workflow wi = Inr (Some m') \<and> (c', items) \<in> set m'
        \<longrightarrow> distinct (map f_node_id items))"
proof -
  have 1: "traverse_traverse_links_dom (Inl (ns, links, start, st))"
    using traverse_terminates by simp
  have 2: "trace_prompt_source_trace_prompt_links_dom (Inl (ns, links, i, pv))"
    using trace_prompt_source_terminates by simp
  have 3: "traverse ns links start st = Inr st" if "start \<in> visited st"
    using that by (simp add: traverse.simps[of ns links start st])
  have 4: "distinct (map f_node_id (category_items c m))"
    if "trace_workflow_inputs start w = Inr m" "c \<notin> set param_link_types"
    using that by (rule tracer_no_duplicates)
  have 5: "distinct (map f_node_id items)"
    if "analyze_comfyui_workflow wi = Inr (Some m')" "(c', items) \<in> set m'"
  proof -
    from that(1) obtain raw where "m' = process_workflow_metadata raw"
      by (auto simp: analyze_comfyui_workflow_def
          split: workflow_input.splits option.splits if_splits prod.splits sum.splits)
    with that(2) show ?thesis by (auto dest: normalizer_no_duplicates)
  qed
  from 1 2 3 4 5 show ?thesis by blast
qed

theorem traversal_terminates_without_duplicates_witness:
  "traverse_traverse_links_dom (Inl (nodes_of_dict [], get_links cyclic_workflow, ''1'', init_state))
   \<and> trace_workflow_inputs ''1'' cyclic_workflow = Inr cyclic_result
   \<and> distinct (map f_node_id (category_items ''LoRA Models'' cyclic_result))"
proof -
  have h1: "trace_workflow_inputs ''1'' cyclic_workflow = Inr cyclic_result" by code_simp
  have h2: "''LoRA Models'' \<notin> set param_link_types" by code_simp
  from traversal_terminates_without_duplicates[of "nodes_of_dict []" "get_links cyclic_workflow" "''1''"
      init_state "''1''" "{}" cyclic_workflow cyclic_result "''LoRA Models''" NotADict "[]" "[]" "[]"]
    h1 h2
  show ?thesis by simp
qed

text \<open>
  C9. When the category of a \<^verbatim>\<open>CONDITIONING\<close> edge is determined and the Text Resolver
  returns an empty list of parts for the source of the edge, the handler returns the
  category map as it was, and the loop of the tracer goes on with the state it had: no
  finding is recorded, not even one with an empty string. The
  resolution is empty when the source is missing (\<open>resolution_empty_missing\<close>), disabled
  (\<open>resolution_empty_disabled\<close>), or has neither a text-typed incoming edge nor
  \<^verbatim>\<open>widgets_values\<close> (\<open>resolution_empty_no_text_no_widgets\<close>).
\<close>

theorem empty_resolution_records_nothing:
  assumes "link_type l = ''CONDITIONING''"
    and "input_name_on_current_node ns current_node_id (to_idx l) = Inr input_name"
    and "prompt_category input_name = Some category"
    and "trace_prompt_source ns links (str_int (from_node l)) {} = Inr ([], pv)"
  shows "handle_conditioning_link current_node_id l ns (identified_inputs st) links
           = Inr (identified_inputs st)
    \<and> traverse_links ns links current_node_id (l # rest) st
        = traverse_links ns links current_node_id rest st"
proof -
  have h: "handle_conditioning_link current_node_id l ns (identified_inputs st) links
      = Inr (identified_inputs st)"
    using assms(2-4) by (simp add: handle_conditioning_link_def)
  then have "handle_link ns links current_node_id l (identified_inputs st)
      = Inr (identified_inputs st, False)"
    using assms(1) by (simp add: handle_link_def)
  then have "traverse_links ns links current_node_id (l # rest) st
      = traverse_links ns links current_node_id rest st"
    by simp
  with h show ?thesis by simp
qed

theorem empty_resolution_records_nothing_witness:
  "handle_conditioning_link ''1'' dangling_link fox_nodes (identified_inputs init_state) fox_links
     = Inr (identified_inputs init_state)
   \<and> traverse_links fox_nodes fox_links ''1'' [dangling_link] init_state = Inr init_state"
proof -
  have h0: "link_type dangling_link = ''CONDITIONING''"
    by (simp add: dangling_link_def mk_link_def)
  have h1: "input_name_on_current_node fox_nodes ''1'' (to_idx dangling_link) = Inr (Some ''negative'')"
    by code_simp
  have h2: "prompt_category (Some ''negative'') = Some ''Negative Prompts''"
    by code_simp
  have h3: "trace_prompt_source fox_nodes fox_links (str_int (from_node dangling_link)) {} = Inr ([], {''9''})"
    by code_simp
  from empty_resolution_records_nothing[OF h0 h1 h2 h3, of init_state "[]"]
  show ?thesis by simp
qed

text \<open>
  C10. A node record that lacks the key \<^verbatim>\<open>mode\<close> is treated as a record with mode 0 at
  every point where the mode is read: giving every non-empty record without \<^verbatim>\<open>mode\<close> the
  explicit mode 0 changes neither the source-node recording step, nor the \<^verbatim>\<open>MODEL\<close> branch,
  nor the parameter branch, nor the Text Resolver, nor the traversal as a whole. (An empty
  record is false in Python and is treated as a missing node before any mode is read.)
\<close>

theorem absent_mode_is_mode_zero:
  "record_source_node i (with_default_mode n) identified = record_source_node i n identified
   \<and> handle_model_link (with_default_modes ns) l identified = handle_model_link ns l identified
   \<and> handle_param_link (with_default_modes ns) l identified = handle_param_link ns l identified
   \<and> trace_prompt_source (with_default_modes ns) links i pv = trace_prompt_source ns links i pv
   \<and> traverse (with_default_modes ns) links i st = traverse ns links i st"
proof -
  have model: "handle_model_link (with_default_modes ns) l identified = handle_model_link ns l identified"
    by (cases "get_node ns (str_int (from_node l))")
      (simp_all add: handle_model_link_def Let_def get_node_with_default_modes cong: branch_cong)
  have param: "handle_param_link (with_default_modes ns) l identified = handle_param_link ns l identified"
    by (cases "get_node ns (str_int (from_node l))")
      (simp_all add: handle_param_link_def Let_def get_node_with_default_modes cong: branch_cong)
  show ?thesis
    by (simp add: model param trace_prompt_default_modes traverse_default_modes)
qed

end
